theory Spec2Isabelle
  imports Complex_Main "HOL-Library.Multiset"
begin

section \<open>Data model (lib/types.ts)\<close>

text \<open>
  The TypeScript interfaces become records and the string-literal unions become datatypes.
  Field names that several interfaces share (\<open>provider\<close>, \<open>model\<close>, \<open>content\<close>,
  \<open>answer\<close>, \<open>transcript\<close>) or that clash with a HOL constant (\<open>id\<close>, \<open>round\<close>)
  carry the record's name as a prefix. A JavaScript string is a \<open>string\<close>: one \<open>char\<close>
  stands for one UTF-16 code unit, so \<open>length\<close> is the source's \<open>.length\<close>.
\<close>

text \<open>
  The round count, the round of a turn and the token budget are JavaScript numbers. The
  round count is \<open>Number.parseInt(process.env.DEBATE_ROUNDS ?? "2", 10)\<close>: an integer,
  or \<open>NaN\<close> when the variable is set and does not start with an integer (the empty
  string, a word). The numbers computed from it are again integers or \<open>NaN\<close>.
  Integers are taken exactly; JavaScript does so up to 2^53.
\<close>

datatype number = Num int | NaN

datatype ProviderName = Openai | Anthropic | Gemini | Xai

datatype ChatRole = System | User | Assistant

record ChatMessage =
  role :: ChatRole
  content :: string

record LlmCallInput =
  provider :: ProviderName
  model :: string
  messages :: "ChatMessage list"
  temperature :: "rat option"
  maxTokens :: "number option"

record DebateAgent =
  agent_id :: string
  agent_name :: string
  agent_provider :: ProviderName
  agent_model :: string
  persona :: string
  isModerator :: bool

record DebateTurn =
  turn_round :: number
  agentId :: string
  agentName :: string
  turn_provider :: ProviderName
  turn_model :: string
  turn_content :: string

datatype ExperimentConditionId =
  Single_plain | Single_role | Multi_mixed_models | Multi_same_model_roles

record ConditionResult =
  conditionId :: ExperimentConditionId
  conditionLabel :: string
  answer :: string
  transcript :: "DebateTurn list"

record BlindedResponse =
  blindId :: string
  blind_answer :: string
  sourceConditionId :: ExperimentConditionId
  sourceConditionLabel :: string
  blind_transcript :: "DebateTurn list"

record ExperimentApiResponse =
  runId :: string
  createdAt :: string
  question :: string
  responses :: "BlindedResponse list"

section \<open>Strings\<close>

text \<open>The newline of the source's \<open>"\n"\<close>.\<close>

definition nl :: string where
  "nl = [CHR 0x0A]"

text \<open>\<open>Array.prototype.join\<close> on strings.\<close>

fun join :: "string \<Rightarrow> string list \<Rightarrow> string" where
  "join sep [] = []"
| "join sep [x] = x"
| "join sep (x # y # ys) = x @ sep @ join sep (y # ys)"

text \<open>
  A number inside a template literal (\<open>`Response ${index + 1}`\<close>) prints in decimal
  when it is an integer (one below 10^21: from there on JavaScript prints an exponent),
  and as \<open>NaN\<close> when it is not a number.
\<close>

definition digit :: "nat \<Rightarrow> char" where
  "digit d = ''0123456789'' ! d"

function showNat :: "nat \<Rightarrow> string" where
  "showNat n = (if n < 10 then [digit n] else showNat (n div 10) @ [digit (n mod 10)])"
  by pat_completeness auto
termination
  by (relation "measure (\<lambda>n. n)") auto

declare showNat.simps [simp del]

definition showInt :: "int \<Rightarrow> string" where
  "showInt i = (if i < 0 then ''-'' @ showNat (nat (- i)) else showNat (nat i))"

fun showNumber :: "number \<Rightarrow> string" where
  "showNumber (Num i) = showInt i"
| "showNumber NaN = ''NaN''"

section \<open>Numbers\<close>

text \<open>\<open>a <= b\<close>: false when either side is \<open>NaN\<close>.\<close>

fun lessEq :: "number \<Rightarrow> number \<Rightarrow> bool" where
  "lessEq (Num a) (Num b) = (a \<le> b)"
| "lessEq a b = False"

text \<open>\<open>a + b\<close> and \<open>Math.max(a, b)\<close>: \<open>NaN\<close> when either argument is \<open>NaN\<close>.\<close>

fun addNumbers :: "number \<Rightarrow> number \<Rightarrow> number" where
  "addNumbers (Num a) (Num b) = Num (a + b)"
| "addNumbers a b = NaN"

fun mathMax :: "number \<Rightarrow> number \<Rightarrow> number" where
  "mathMax (Num a) (Num b) = Num (max a b)"
| "mathMax a b = NaN"

section \<open>Thrown values\<close>

text \<open>
  The body of a failed Gemini response as \<open>JSON.parse\<close> returns it
  (\<open>GeminiErrorPayload\<close>); every field is optional in the source.
\<close>

record GeminiErrorDetail =
  atType :: "string option"
  retryDelay :: "string option"

record GeminiErrorBody =
  err_code :: "int option"
  err_status :: "string option"
  err_message :: "string option"
  details :: "GeminiErrorDetail list option"

record GeminiErrorPayload =
  error :: "GeminiErrorBody option"

text \<open>
  What a \<open>throw\<close> or a rejected promise carries. \<open>JsError m\<close> is an \<open>Error\<close> instance
  with message \<open>m\<close> and no \<open>status\<close> or \<open>bodyText\<close> property;
  \<open>GeminiCallError status model bodyText bodyJson\<close> is the error \<open>createGeminiError\<close>
  builds; \<open>NonError\<close> is any value that is not an \<open>Error\<close> instance.
\<close>

datatype thrown =
  JsError string
| GeminiCallError int string string "GeminiErrorPayload option"
| NonError

text \<open>The message \<open>createGeminiError\<close> gives its error.\<close>

definition geminiErrorMessage :: "int \<Rightarrow> string \<Rightarrow> string \<Rightarrow> string" where
  "geminiErrorMessage status mdl bodyText =
     ''Gemini request failed ('' @ showInt status @ '') [model='' @ mdl @ '']: '' @ bodyText"

definition createGeminiError ::
  "(string \<Rightarrow> GeminiErrorPayload option) \<Rightarrow> int \<Rightarrow> string \<Rightarrow> string \<Rightarrow> thrown" where
  "createGeminiError safeParseGeminiErrorBody status bodyText mdl =
     GeminiCallError status mdl bodyText (safeParseGeminiErrorBody bodyText)"

fun instanceofError :: "thrown \<Rightarrow> bool" where
  "instanceofError NonError = False"
| "instanceofError _ = True"

text \<open>
  The \<open>.message\<close> of an \<open>Error\<close> instance. The source reads it only behind an
  \<open>instanceof Error\<close> test or a type guard, so the last equation is never used.
\<close>

fun message :: "thrown \<Rightarrow> string" where
  "message (JsError m) = m"
| "message (GeminiCallError status mdl bodyText bodyJson) = geminiErrorMessage status mdl bodyText"
| "message NonError = []"

text \<open>
  \<open>callLlm\<close> (lib/providers.ts) is the gateway to the external services. The
  orchestration takes it as a parameter: a call reads and changes the state \<open>'s\<close> of the
  outside world and either throws or returns the text.
\<close>

type_synonym 's llm = "LlmCallInput \<Rightarrow> 's \<Rightarrow> (thrown + string) \<times> 's"

section \<open>Debate engine (lib/experiment.ts)\<close>

text \<open>
  \<open>DEBATE_SYSTEM_TEMPLATE.replace("{PERSONA}", agent.persona)\<close>: the trimmed template
  with the persona in the place of its one placeholder. (The personas of the source hold no
  \<open>$\<close> replacement pattern.)
\<close>

definition debateSystemPrompt :: "string \<Rightarrow> string" where
  "debateSystemPrompt p = join nl
     [''You are participating in a structured multi-agent debate to find the best possible answer.'',
      ''Persona: '' @ p,
      '''',
      ''Rules:'',
      ''1) Prioritize correctness over persuasion.'',
      ''2) Challenge weak reasoning from peers and concede when another argument is stronger.'',
      ''3) Be specific and concrete; do not use filler.'',
      ''4) Keep each round response under 200 words.'',
      '''',
      ''Round 1 goal: propose an initial answer and your reasoning.'',
      ''Round 2+ goal: evaluate peers, refine your position, and ask targeted questions.'',
      ''Final goal: support a single best answer, with uncertainty explicitly noted when needed.'']"

text \<open>\<open>input.slice(0, e)\<close>: a negative end counts from the end of the string.\<close>

definition slice0 :: "string \<Rightarrow> int \<Rightarrow> string" where
  "slice0 input e = (if e < 0 then take (nat (int (length input) + e)) input else take (nat e) input)"

definition clampText :: "string \<Rightarrow> int \<Rightarrow> string" where
  "clampText input maxChars =
     (if int (length input) \<le> maxChars then input else slice0 input (maxChars - 3) @ ''...'')"

definition peerLine :: "DebateTurn \<Rightarrow> string" where
  "peerLine turn = ''- '' @ agentName turn @ '': '' @ clampText (turn_content turn) 280"

definition formatPeerContext :: "DebateTurn list \<Rightarrow> string \<Rightarrow> string" where
  "formatPeerContext turns selfAgentId =
     (let peers = filter (\<lambda>turn. agentId turn \<noteq> selfAgentId) turns
      in if length peers = 0 then ''- No prior peer statements available.''
         else join nl (map peerLine peers))"

text \<open>
  \<open>buildRoundPrompt\<close>. Its \<open>round\<close> is the counter of the loop over the rounds, an
  integer; \<open>totalRounds\<close> is the round count.
\<close>

definition roundHeader :: "string \<Rightarrow> int \<Rightarrow> number \<Rightarrow> string" where
  "roundHeader q r totalRounds =
     join nl [''Question: '' @ q, ''Round '' @ showInt r @ '' of '' @ showNumber totalRounds]"

definition buildRoundPrompt ::
  "string \<Rightarrow> int \<Rightarrow> number \<Rightarrow> DebateAgent \<Rightarrow> DebateTurn list \<Rightarrow> string" where
  "buildRoundPrompt q r totalRounds agent previousRoundTurns =
     (if r = 1 then
        join nl
          [roundHeader q r totalRounds,
           '''',
           ''Task:'',
           ''- Provide your initial best answer.'',
           ''- Explain your strongest reasoning in 3-5 concise bullets.'',
           ''- End with confidence score from 0-100.'',
           '''',
           ''Format:'',
           ''Answer:'',
           ''Reasoning:'',
           ''Questions for peers:'',
           ''Confidence:'']
      else
        (let peerContext = formatPeerContext previousRoundTurns (agent_id agent)
         in join nl
          [roundHeader q r totalRounds,
           '''',
           ''Peer updates from the previous round:'',
           peerContext,
           '''',
           ''Task:'',
           ''- Critique at least one peer claim.'',
           ''- Defend your current answer or concede to a stronger answer.'',
           ''- Ask up to 2 pointed questions only if needed.'',
           ''- End with an updated confidence score from 0-100.'',
           '''',
           ''Format:'',
           ''Current answer:'',
           ''Why this is stronger (or concession):'',
           ''Questions for peers:'',
           ''Confidence:'']))"

definition moderatorLine :: "DebateTurn \<Rightarrow> string" where
  "moderatorLine turn =
     ''Round '' @ showNumber (turn_round turn) @ '' - '' @ agentName turn @ '': ''
       @ clampText (turn_content turn) 360"

definition buildModeratorPrompt :: "string \<Rightarrow> DebateTurn list \<Rightarrow> number \<Rightarrow> string" where
  "buildModeratorPrompt q transcr rounds =
     (let condensedTranscript =
            join (nl @ nl) (map moderatorLine (filter (\<lambda>turn. lessEq (turn_round turn) rounds) transcr))
      in join nl
          [''Question: '' @ q,
           '''',
           ''You are the moderator. Synthesize the debate into one final answer.'',
           ''Use the transcript below. If no full consensus exists, still provide the single best answer and mention unresolved disagreement briefly.'',
           '''',
           ''Return exactly this structure:'',
           ''Final answer:'',
           ''Why this answer wins:'',
           ''Remaining uncertainty:'',
           ''Final confidence (0-100):'',
           '''',
           ''Transcript:'',
           condensedTranscript])"

record DebateRunResult =
  debate_answer :: string
  debate_transcript :: "DebateTurn list"

text \<open>
  \<open>histories\<close> is the \<open>Map\<close> from agent id to that agent's message array. The arrays
  are mutated in place by \<open>push\<close>; the model stores the extended array back under its key.
\<close>

type_synonym histories = "string \<rightharpoonup> ChatMessage list"

definition initHistories :: "DebateAgent list \<Rightarrow> histories" where
  "initHistories agents =
     fold (\<lambda>agent h. h(agent_id agent \<mapsto> [\<lparr> role = System, content = debateSystemPrompt (persona agent) \<rparr>]))
       agents Map.empty"

text \<open>The turn that the loop pushes for the agent in round \<open>r\<close>, the loop counter.\<close>

definition mkTurn :: "int \<Rightarrow> DebateAgent \<Rightarrow> string \<Rightarrow> DebateTurn" where
  "mkTurn r agent c =
     \<lparr> turn_round = Num r, agentId = agent_id agent, agentName = agent_name agent,
       turn_provider = agent_provider agent, turn_model = agent_model agent, turn_content = c \<rparr>"

text \<open>
  The inner loop \<open>for (const agent of input.agents)\<close> of one round. \<open>maxTok\<close> is
  \<open>MAX_DEBATE_RESPONSE_TOKENS\<close>. A throw leaves the loop (and \<open>runDebate\<close>) at once.
\<close>

fun agentsLoop ::
  "'s llm \<Rightarrow> number \<Rightarrow> string \<Rightarrow> int \<Rightarrow> number \<Rightarrow> DebateTurn list \<Rightarrow> DebateAgent list
     \<Rightarrow> histories \<Rightarrow> DebateTurn list \<Rightarrow> 's \<Rightarrow> (thrown + histories \<times> DebateTurn list) \<times> 's" where
  "agentsLoop callLlm maxTok q r totalRounds previousRoundTurns [] h contributions s =
     (Inr (h, contributions), s)"
| "agentsLoop callLlm maxTok q r totalRounds previousRoundTurns (agent # rest) h contributions s =
     (let roundPrompt = buildRoundPrompt q r totalRounds agent previousRoundTurns
      in case h (agent_id agent) of
           None \<Rightarrow> (Inl (JsError (''Missing chat history for agent '' @ agent_id agent)), s)
         | Some history \<Rightarrow>
             (let history1 = history @ [\<lparr> role = User, content = roundPrompt \<rparr>]
              in case callLlm \<lparr> provider = agent_provider agent, model = agent_model agent,
                                messages = history1, temperature = Some (1 / 2),
                                maxTokens = Some maxTok \<rparr> s of
                   (Inl e, s') \<Rightarrow> (Inl e, s')
                 | (Inr c, s') \<Rightarrow>
                     agentsLoop callLlm maxTok q r totalRounds previousRoundTurns rest
                       (h(agent_id agent \<mapsto> history1 @ [\<lparr> role = Assistant, content = c \<rparr>]))
                       (contributions @ [mkTurn r agent c]) s'))"

text \<open>
  The outer loop \<open>for (let round = 1; round <= input.rounds; round += 1)\<close>. The counter
  \<open>r\<close> is an integer, so \<open>turn.round === round - 1\<close> is equality with the number
  \<open>Num (r - 1)\<close>. With the count \<open>NaN\<close> the test fails at once.
\<close>

function roundsLoop ::
  "'s llm \<Rightarrow> number \<Rightarrow> string \<Rightarrow> DebateAgent list \<Rightarrow> number \<Rightarrow> int
     \<Rightarrow> histories \<Rightarrow> DebateTurn list \<Rightarrow> 's \<Rightarrow> (thrown + histories \<times> DebateTurn list) \<times> 's" where
  "roundsLoop callLlm maxTok q agents rounds r h transcr s =
     (if lessEq (Num r) rounds then
        (let previousRoundTurns = filter (\<lambda>turn. turn_round turn = Num (r - 1)) transcr
         in case agentsLoop callLlm maxTok q r rounds previousRoundTurns agents h [] s of
              (Inl e, s') \<Rightarrow> (Inl e, s')
            | (Inr (h', contributions), s') \<Rightarrow>
                roundsLoop callLlm maxTok q agents rounds (r + 1) h' (transcr @ contributions) s')
      else (Inr (h, transcr), s))"
  by pat_completeness auto
termination
  by (relation "measure (\<lambda>(callLlm, maxTok, q, agents, rounds, r, h, transcr, s).
        case rounds of Num n \<Rightarrow> nat (n + 1 - r) | NaN \<Rightarrow> 0)")
    (auto elim: lessEq.elims)

declare roundsLoop.simps [simp del]

text \<open>
  \<open>input.agents.find((agent) => agent.isModerator) ?? input.agents[0]\<close>; with no agent
  at all the value is undefined.
\<close>

definition findModerator :: "DebateAgent list \<Rightarrow> DebateAgent option" where
  "findModerator agents =
     (case find isModerator agents of
        Some m \<Rightarrow> Some m
      | None \<Rightarrow> (case agents of [] \<Rightarrow> None | a # _ \<Rightarrow> Some a))"

definition synthesisTurn :: "number \<Rightarrow> DebateAgent \<Rightarrow> string \<Rightarrow> DebateTurn" where
  "synthesisTurn rounds moderator finalAnswer =
     \<lparr> turn_round = addNumbers rounds (Num 1), agentId = agent_id moderator,
       agentName = agent_name moderator @ '' (Final Synthesis)'',
       turn_provider = agent_provider moderator, turn_model = agent_model moderator,
       turn_content = finalAnswer \<rparr>"

text \<open>
  \<open>runDebate\<close>. Reading \<open>moderator.id\<close> of an undefined moderator throws a
  \<open>TypeError\<close>, an \<open>Error\<close> instance (the message is the engine's).
\<close>

definition runDebate ::
  "'s llm \<Rightarrow> number \<Rightarrow> string \<Rightarrow> DebateAgent list \<Rightarrow> number \<Rightarrow> 's \<Rightarrow> (thrown + DebateRunResult) \<times> 's" where
  "runDebate callLlm maxTok q agents rounds s =
     (case roundsLoop callLlm maxTok q agents rounds 1 (initHistories agents) [] s of
        (Inl e, s') \<Rightarrow> (Inl e, s')
      | (Inr (h, transcr), s') \<Rightarrow>
          (case findModerator agents of
             None \<Rightarrow> (Inl (JsError ''Cannot read properties of undefined (reading 'id')''), s')
           | Some moderator \<Rightarrow>
               (case h (agent_id moderator) of
                  None \<Rightarrow>
                    (Inl (JsError (''Missing moderator history for agent '' @ agent_id moderator)), s')
                | Some moderatorHistory \<Rightarrow>
                    (case callLlm \<lparr> provider = agent_provider moderator, model = agent_model moderator,
                                     messages = moderatorHistory
                                       @ [\<lparr> role = User, content = buildModeratorPrompt q transcr rounds \<rparr>],
                                     temperature = Some (1 / 5), maxTokens = Some (Num 950) \<rparr> s' of
                       (Inl e, s'') \<Rightarrow> (Inl e, s'')
                     | (Inr finalAnswer, s'') \<Rightarrow>
                         (Inr \<lparr> debate_answer = finalAnswer,
                                debate_transcript = transcr @ [synthesisTurn rounds moderator finalAnswer] \<rparr>,
                          s'')))))"

section \<open>Condition runners (lib/experiment.ts)\<close>

definition runSingleCondition ::
  "'s llm \<Rightarrow> ExperimentConditionId \<Rightarrow> string \<Rightarrow> string \<Rightarrow> string \<Rightarrow> ProviderName \<Rightarrow> string
     \<Rightarrow> 's \<Rightarrow> (thrown + ConditionResult) \<times> 's" where
  "runSingleCondition callLlm cid clabel q systemPrompt prov mdl s =
     (case callLlm \<lparr> provider = prov, model = mdl,
                      messages = [\<lparr> role = System, content = systemPrompt \<rparr>,
                                  \<lparr> role = User, content = ''Question: '' @ q \<rparr>],
                      temperature = Some (1 / 5), maxTokens = Some (Num 1000) \<rparr> s of
        (Inl e, s') \<Rightarrow> (Inl e, s')
      | (Inr a, s') \<Rightarrow>
          (Inr \<lparr> conditionId = cid, conditionLabel = clabel, answer = a,
                 transcript = [\<lparr> turn_round = Num 1, agentId = ''single'', agentName = ''Single Model'',
                                 turn_provider = prov, turn_model = mdl, turn_content = a \<rparr>] \<rparr>,
           s'))"

text \<open>
  \<open>runDebateCondition\<close>: the round count passed on is \<open>Math.max(1, input.rounds)\<close>,
  which is \<open>NaN\<close> for the count \<open>NaN\<close>.
\<close>

definition runDebateCondition ::
  "'s llm \<Rightarrow> number \<Rightarrow> ExperimentConditionId \<Rightarrow> string \<Rightarrow> string \<Rightarrow> DebateAgent list \<Rightarrow> number
     \<Rightarrow> 's \<Rightarrow> (thrown + ConditionResult) \<times> 's" where
  "runDebateCondition callLlm maxTok cid clabel q agents rounds s =
     (case runDebate callLlm maxTok q agents (mathMax (Num 1) rounds) s of
        (Inl e, s') \<Rightarrow> (Inl e, s')
      | (Inr debate, s') \<Rightarrow>
          (Inr \<lparr> conditionId = cid, conditionLabel = clabel, answer = debate_answer debate,
                 transcript = debate_transcript debate \<rparr>,
           s'))"

section \<open>Blinding (lib/experiment.ts, blindAndShuffle)\<close>

text \<open>
  The destructuring swap \<open>[a[i], a[j]] = [a[j], a[i]]\<close>: both reads happen before
  the two writes.
\<close>

definition swapAt :: "nat \<Rightarrow> nat \<Rightarrow> 'a list \<Rightarrow> 'a list" where
  "swapAt i j xs = xs[i := xs ! j, j := xs ! i]"

text \<open>
  The loop \<open>for (index = length - 1; index > 0; index -= 1)\<close>. The random source is
  the function \<open>rnd\<close>: \<open>rnd index\<close> is the value that
  \<open>Math.floor(Math.random() * (index + 1))\<close> takes in the iteration with that index,
  a number between 0 and \<open>index\<close>.
\<close>

fun shuffleLoop :: "(nat \<Rightarrow> nat) \<Rightarrow> nat \<Rightarrow> 'a list \<Rightarrow> 'a list" where
  "shuffleLoop rnd 0 shuffled = shuffled"
| "shuffleLoop rnd (Suc i) shuffled =
     shuffleLoop rnd i (swapAt (Suc i) (rnd (Suc i)) shuffled)"

definition labels :: "string list" where
  "labels = [''Response A'', ''Response B'', ''Response C'', ''Response D'']"

text \<open>\<open>labels[index] ?? `Response ${index + 1}`\<close>: an index past the array reads undefined.\<close>

definition blindLabel :: "nat \<Rightarrow> string" where
  "blindLabel index =
     (if index < length labels then labels ! index else ''Response '' @ showNat (index + 1))"

definition blindOne :: "nat \<Rightarrow> ConditionResult \<Rightarrow> BlindedResponse" where
  "blindOne index result =
     \<lparr> blindId = blindLabel index,
       blind_answer = answer result,
       sourceConditionId = conditionId result,
       sourceConditionLabel = conditionLabel result,
       blind_transcript = transcript result \<rparr>"

definition blindAndShuffle :: "(nat \<Rightarrow> nat) \<Rightarrow> ConditionResult list \<Rightarrow> BlindedResponse list" where
  "blindAndShuffle rnd results =
     (let shuffled = shuffleLoop rnd (length results - 1) results
      in map (\<lambda>(index, result). blindOne index result) (enumerate 0 shuffled))"

section \<open>Experiment coordinator (lib/experiment.ts)\<close>

definition fallbackMappings :: "(ExperimentConditionId \<times> string) list" where
  "fallbackMappings =
     [(Single_plain, ''Single model (first attempt)''),
      (Multi_mixed_models, ''4-agent mixed-model debate''),
      (Multi_same_model_roles, ''4 same-model agents with distinct roles''),
      (Single_role, ''Single model with role prompt'')]"

text \<open>\<open>reason instanceof Error ? reason.message : "Unknown failure"\<close>.\<close>

definition errorMessage :: "thrown \<Rightarrow> string" where
  "errorMessage reason = (if instanceofError reason then message reason else ''Unknown failure'')"

text \<open>\<open>fallbackMappings[index] ?? fallbackMappings[0]\<close>: an index past the table reads undefined.\<close>

definition buildFailedConditionResult :: "nat \<Rightarrow> thrown \<Rightarrow> ConditionResult" where
  "buildFailedConditionResult index reason =
     (let fallback = (if index < length fallbackMappings then fallbackMappings ! index
                      else fallbackMappings ! 0)
      in \<lparr> conditionId = fst fallback,
           conditionLabel = snd fallback,
           answer = ''This condition failed to run.'' @ nl @ nl @ ''Error: '' @ errorMessage reason,
           transcript = [] \<rparr>)"

text \<open>
  A condition runner \<open>() => Promise<ConditionResult>\<close>: run on a state of the outside
  world, it throws or returns its result and leaves the world changed.
\<close>

type_synonym 's runner = "'s \<Rightarrow> (thrown + ConditionResult) \<times> 's"

text \<open>
  \<open>runConditionsSequentially\<close>: the loop over \<open>conditionRunners.entries()\<close> with its
  \<open>try\<close>/\<open>catch\<close>; \<open>index\<close> is the position of the runner at the head of the list.
\<close>

fun sequentialLoop ::
  "nat \<Rightarrow> 's runner list \<Rightarrow> ConditionResult list \<Rightarrow> 's \<Rightarrow> ConditionResult list \<times> 's" where
  "sequentialLoop index [] results s = (results, s)"
| "sequentialLoop index (runCondition # rest) results s =
     (case runCondition s of
        (Inr r, s') \<Rightarrow> sequentialLoop (index + 1) rest (results @ [r]) s'
      | (Inl e, s') \<Rightarrow>
          sequentialLoop (index + 1) rest (results @ [buildFailedConditionResult index e]) s')"

definition runConditionsSequentially :: "'s runner list \<Rightarrow> 's \<Rightarrow> ConditionResult list \<times> 's" where
  "runConditionsSequentially conditionRunners s = sequentialLoop 0 conditionRunners [] s"

text \<open>
  \<open>Promise.allSettled(conditionRunners.map((runCondition) => runCondition()))\<close>: all
  runners are started and each is awaited on its own. Their backend calls interleave, so
  runner \<open>i\<close> meets the outside world in a state of its own, \<open>views i\<close>; nothing is assumed
  about how these states relate. The settled array keeps the runners' order.
\<close>

definition allSettled :: "(nat \<Rightarrow> 's) \<Rightarrow> 's runner list \<Rightarrow> (thrown + ConditionResult) list" where
  "allSettled views conditionRunners =
     map (\<lambda>(index, runCondition). fst (runCondition (views index))) (enumerate 0 conditionRunners)"

definition runConditionsInParallel :: "(nat \<Rightarrow> 's) \<Rightarrow> 's runner list \<Rightarrow> ConditionResult list" where
  "runConditionsInParallel views conditionRunners =
     map (\<lambda>(index, result).
            case result of Inr v \<Rightarrow> v | Inl reason \<Rightarrow> buildFailedConditionResult index reason)
       (enumerate 0 (allSettled views conditionRunners))"

record ModelCatalog =
  cat_openai :: string
  cat_anthropic :: string
  cat_gemini :: string
  cat_xai :: string

definition buildGeminiBackedMixedAgents :: "string \<Rightarrow> DebateAgent list" where
  "buildGeminiBackedMixedAgents geminiModel =
     [\<lparr> agent_id = ''chatgpt_slot'', agent_name = ''ChatGPT Slot (Gemini backend)'',
        agent_provider = Gemini, agent_model = geminiModel,
        persona = ''Debate moderator focused on extracting the strongest shared answer. Push peers to justify claims and integrate valid objections.'',
        isModerator = True \<rparr>,
      \<lparr> agent_id = ''claude_slot'', agent_name = ''Claude Slot (Gemini backend)'',
        agent_provider = Gemini, agent_model = geminiModel,
        persona = ''Careful reasoner. Stress-test assumptions, clarify ambiguity, and highlight hidden edge cases before accepting a conclusion.'',
        isModerator = False \<rparr>,
      \<lparr> agent_id = ''gemini_slot'', agent_name = ''Gemini Slot'',
        agent_provider = Gemini, agent_model = geminiModel,
        persona = ''Evidence-oriented analyst. Prefer verifiable facts, explicit logic steps, and concise error bounds or caveats.'',
        isModerator = False \<rparr>,
      \<lparr> agent_id = ''grok_slot'', agent_name = ''Grok Slot (Gemini backend)'',
        agent_provider = Gemini, agent_model = geminiModel,
        persona = ''Constructive challenger. Attack weak arguments and propose alternative hypotheses until they are disproven.'',
        isModerator = False \<rparr>]"

definition buildMixedModelAgents :: "ModelCatalog \<Rightarrow> bool \<Rightarrow> DebateAgent list" where
  "buildMixedModelAgents models forceGeminiOnly =
     (if forceGeminiOnly then buildGeminiBackedMixedAgents (cat_gemini models)
      else
       [\<lparr> agent_id = ''chatgpt_moderator'', agent_name = ''ChatGPT Moderator'',
          agent_provider = Openai, agent_model = cat_openai models,
          persona = ''Debate moderator focused on extracting the strongest shared answer. Push peers to justify claims and integrate valid objections.'',
          isModerator = True \<rparr>,
        \<lparr> agent_id = ''claude_reasoner'', agent_name = ''Claude'',
          agent_provider = Anthropic, agent_model = cat_anthropic models,
          persona = ''Careful reasoner. Stress-test assumptions, clarify ambiguity, and highlight hidden edge cases before accepting a conclusion.'',
          isModerator = False \<rparr>,
        \<lparr> agent_id = ''gemini_evidence'', agent_name = ''Gemini'',
          agent_provider = Gemini, agent_model = cat_gemini models,
          persona = ''Evidence-oriented analyst. Prefer verifiable facts, explicit logic steps, and concise error bounds or caveats.'',
          isModerator = False \<rparr>,
        \<lparr> agent_id = ''grok_challenger'', agent_name = ''Grok'',
          agent_provider = Xai, agent_model = cat_xai models,
          persona = ''Constructive challenger. Attack weak arguments and propose alternative hypotheses until they are disproven.'',
          isModerator = False \<rparr>])"

definition buildSameModelRoleAgents :: "ProviderName \<Rightarrow> string \<Rightarrow> DebateAgent list" where
  "buildSameModelRoleAgents prov mdl =
     [\<lparr> agent_id = ''lead_moderator'', agent_name = ''Lead Moderator'',
        agent_provider = prov, agent_model = mdl,
        persona = ''Lead moderator responsible for convergence. Keep the team focused, call out contradictions, and synthesize the strongest final answer.'',
        isModerator = True \<rparr>,
      \<lparr> agent_id = ''skeptic'', agent_name = ''Skeptic'',
        agent_provider = prov, agent_model = mdl,
        persona = ''Skeptical reviewer. Your role is to find mistakes, weak assumptions, and overconfidence in every claim.'',
        isModerator = False \<rparr>,
      \<lparr> agent_id = ''researcher'', agent_name = ''Researcher'',
        agent_provider = prov, agent_model = mdl,
        persona = ''Research-oriented analyst. Bring structured, evidence-first reasoning and compare plausible alternatives.'',
        isModerator = False \<rparr>,
      \<lparr> agent_id = ''pragmatist'', agent_name = ''Pragmatist'',
        agent_provider = prov, agent_model = mdl,
        persona = ''Pragmatic decision-maker. Select answers that are actionable and robust under realistic constraints.'',
        isModerator = False \<rparr>]"

text \<open>\<open>getConditionLabels\<close>: the \<open>Record\<close> from condition id to label, as a function.\<close>

fun getConditionLabels :: "bool \<Rightarrow> ExperimentConditionId \<Rightarrow> string" where
  "getConditionLabels True Single_plain = ''Single Gemini (first attempt)''"
| "getConditionLabels True Multi_mixed_models = ''4-agent debate (Gemini-backed stand-ins)''"
| "getConditionLabels True Multi_same_model_roles = ''4 Gemini agents with distinct roles''"
| "getConditionLabels True Single_role = ''Single Gemini with role prompt''"
| "getConditionLabels False Single_plain = ''Single ChatGPT (first attempt)''"
| "getConditionLabels False Multi_mixed_models = ''4-model debate (ChatGPT + Claude + Gemini + Grok)''"
| "getConditionLabels False Multi_same_model_roles = ''4 ChatGPT agents with distinct roles''"
| "getConditionLabels False Single_role = ''Single ChatGPT with role prompt''"

definition CORE_SINGLE_INSTRUCTIONS :: string where
  "CORE_SINGLE_INSTRUCTIONS = join '' ''
     [''You are helping evaluate answer quality for a capstone project.'',
      ''Provide a direct answer first, then concise justification.'',
      ''If uncertain, clearly state uncertainty instead of over-claiming.'',
      ''Keep the response under 220 words.'']"

definition ROLE_BASED_SINGLE_INSTRUCTIONS :: string where
  "ROLE_BASED_SINGLE_INSTRUCTIONS = join '' ''
     [''You are a methodical evaluator with expertise in critical reasoning.'',
      ''Explain the answer as if your work will be audited for correctness.'',
      ''Include one brief caveat if there is meaningful uncertainty.'',
      ''Keep the response under 240 words.'']"

text \<open>
  What \<open>runExperiment\<close> reads from its environment: the module constants parsed from
  \<open>process.env\<close>, the model catalog, \<open>crypto.randomUUID()\<close> and the clock.
\<close>

record environment =
  MAX_DEBATE_RESPONSE_TOKENS :: number
  DEFAULT_DEBATE_ROUNDS :: number
  FORCE_GEMINI_ONLY :: bool
  SERIALIZE_CONDITIONS :: bool
  getModelCatalog :: ModelCatalog
  randomUUID :: string
  nowISOString :: string

definition conditionRunners :: "environment \<Rightarrow> 's llm \<Rightarrow> string \<Rightarrow> 's runner list" where
  "conditionRunners env callLlm q =
     (let models = getModelCatalog env;
          singleProvider = (if FORCE_GEMINI_ONLY env then Gemini else Openai);
          singleModel = (if FORCE_GEMINI_ONLY env then cat_gemini models else cat_openai models);
          conditionLabels = getConditionLabels (FORCE_GEMINI_ONLY env)
      in [runSingleCondition callLlm Single_plain (conditionLabels Single_plain) q
            CORE_SINGLE_INSTRUCTIONS singleProvider singleModel,
          runDebateCondition callLlm (MAX_DEBATE_RESPONSE_TOKENS env) Multi_mixed_models
            (conditionLabels Multi_mixed_models) q
            (buildMixedModelAgents models (FORCE_GEMINI_ONLY env)) (DEFAULT_DEBATE_ROUNDS env),
          runDebateCondition callLlm (MAX_DEBATE_RESPONSE_TOKENS env) Multi_same_model_roles
            (conditionLabels Multi_same_model_roles) q
            (buildSameModelRoleAgents singleProvider singleModel) (DEFAULT_DEBATE_ROUNDS env),
          runSingleCondition callLlm Single_role (conditionLabels Single_role) q
            ROLE_BASED_SINGLE_INSTRUCTIONS singleProvider singleModel])"

text \<open>
  \<open>runExperiment\<close>. \<open>s\<close> is the outside world the serial mode starts in, \<open>views\<close> what
  the four concurrent pipelines meet, \<open>rnd\<close> the random source of the shuffle.
\<close>

definition runExperiment ::
  "environment \<Rightarrow> 's llm \<Rightarrow> (nat \<Rightarrow> nat) \<Rightarrow> (nat \<Rightarrow> 's) \<Rightarrow> string \<Rightarrow> 's \<Rightarrow> ExperimentApiResponse" where
  "runExperiment env callLlm rnd views q s =
     (let conditionResults =
            (if SERIALIZE_CONDITIONS env
             then fst (runConditionsSequentially (conditionRunners env callLlm q) s)
             else runConditionsInParallel views (conditionRunners env callLlm q));
          blinded = blindAndShuffle rnd conditionResults
      in \<lparr> runId = randomUUID env, createdAt = nowISOString env, question = q,
           responses = blinded \<rparr>)"

section \<open>Gemini adapter (lib/providers.ts)\<close>


text \<open>
  The type guards take the \<open>unknown\<close> value of \<open>currentError\<close>: \<open>None\<close> is
  \<open>undefined\<close>. Only the errors of \<open>createGeminiError\<close> have \<open>status\<close> and
  \<open>bodyText\<close>.
\<close>

fun isGeminiCallError :: "thrown option \<Rightarrow> bool" where
  "isGeminiCallError (Some (GeminiCallError status mdl bodyText bodyJson)) = True"
| "isGeminiCallError _ = False"





















text \<open>
  The outer loop \<open>for (const model of modelCandidates)\<close>: it returns the text, or ends
  with \<open>lastError\<close> and \<open>preferredError\<close>. \<open>currentError && ...\<close> tests that an error
  was caught (a caught error object is truthy).
\<close>

datatype fallback = Answered string | Exhausted "thrown option" "thrown option"



section \<open>Gemini request queue (lib/providers.ts, enqueueGeminiWork)\<close>

text \<open>
  The adapter serialises its calls with a chain of promises. The module holds
  \<open>let geminiQueue: Promise<void> = Promise.resolve()\<close>, and

  \<^verbatim>\<open>function enqueueGeminiWork(task) {\<close>
  \<^verbatim>\<open>  const run = geminiQueue.then(task, task);\<close>
  \<^verbatim>\<open>  geminiQueue = run.then(() => undefined, () => undefined);\<close>
  \<^verbatim>\<open>  return run; }\<close>

  The model keeps what the JavaScript job queue keeps: the state of every promise, the
  reactions registered by \<open>then\<close> that have not run yet, and the promises that wait to
  take over the state of the promise a handler returned.
\<close>

datatype pstatus = Pending | Fulfilled | Rejected

text \<open>
  The promises of the chain: the promise the module starts with, and for the \<open>k\<close>-th
  call of \<open>enqueueGeminiWork\<close> its \<open>run\<close>, the value it leaves in \<open>geminiQueue\<close>
  (\<open>Tail k\<close>), and the promise that \<open>task()\<close> returns (\<open>Result k\<close>).
\<close>

datatype pid = Initial | Run nat | Tail nat | Result nat

text \<open>
  Each \<open>then\<close> is given the same function for fulfilment and for rejection: the task,
  or \<open>() => undefined\<close>.
\<close>

datatype handler = CallTask nat | ReturnUndefined

text \<open>
  \<open>thens\<close> are the registered reactions (source promise, handler, derived promise);
  \<open>adopts\<close> are the pairs (inner, outer) of a derived promise \<open>outer\<close> that was resolved
  with the promise \<open>inner\<close> and settles as it does; \<open>started\<close> lists the tasks whose
  function has been called, in the order of the calls; \<open>ntasks\<close> counts the calls of
  \<open>enqueueGeminiWork\<close>.
\<close>

record queue =
  geminiQueue :: pid
  status :: "pid \<Rightarrow> pstatus"
  thens :: "(pid \<times> handler \<times> pid) list"
  adopts :: "(pid \<times> pid) list"
  started :: "nat list"
  ntasks :: nat

text \<open>
The module as loaded: \<open>geminiQueue\<close> is the resolved promise, no task was enqueued.
\<close>

definition initialQueue :: queue where
  "initialQueue =
     \<lparr> geminiQueue = Initial,
       status = (\<lambda>p. if p = Initial then Fulfilled else Pending),
       thens = [], adopts = [], started = [], ntasks = 0 \<rparr>"

text \<open>
  The two calls of \<open>then\<close> register one reaction each, the module variable is
  overwritten, and \<open>run\<close> is returned.
\<close>

definition enqueueGeminiWork :: "queue \<Rightarrow> pid \<times> queue" where
  "enqueueGeminiWork st =
     (let task = ntasks st;
          run = Run task;
          st1 = st\<lparr> thens := thens st @ [(geminiQueue st, CallTask task, run)] \<rparr>;
          st2 = st1\<lparr> thens := thens st1 @ [(run, ReturnUndefined, Tail task)],
                     geminiQueue := Tail task \<rparr>
      in (run, st2\<lparr> ntasks := task + 1 \<rparr>))"

text \<open>
  \<open>callGemini\<close> is
  \<open>return enqueueGeminiWork(() => callGeminiWithFallbackAndRetries(input, apiKey))\<close>:
  the task is one whole call of the fallback and retry loops.
\<close>

definition callGemini :: "queue \<Rightarrow> pid \<times> queue" where
  "callGemini st = enqueueGeminiWork st"

text \<open>
The list without its element at index \<open>i\<close>.
\<close>

definition remove_nth :: "nat \<Rightarrow> 'a list \<Rightarrow> 'a list" where
  "remove_nth i xs = take i xs @ drop (Suc i) xs"

text \<open>
  What the run time may do next, in any order it chooses (the job queue of JavaScript
  takes the reactions in the order they became ready, which is one of these orders):
  a caller enqueues a task; the \<open>i\<close>-th registered reaction runs, once its source
  promise is settled (\<open>() => undefined\<close> fulfils the derived promise; the task is
  called, which starts it, and the derived promise takes over the promise that the
  asynchronous function returns); the \<open>i\<close>-th adoption is carried out, once the inner
  promise is settled; the promise of a started task settles, fulfilled or rejected. A step
  that cannot be taken is \<open>None\<close>.
\<close>

datatype action = Enqueue | React nat | Adopt nat | Settle nat bool

fun step :: "action \<Rightarrow> queue \<Rightarrow> queue option" where
  "step Enqueue st = Some (snd (callGemini st))"
| "step (React i) st =
     (if i < length (thens st) then
        (case thens st ! i of
           (source, h, derived) \<Rightarrow>
             if status st source = Pending then None
             else
               (case h of
                  ReturnUndefined \<Rightarrow>
                    Some (st\<lparr> thens := remove_nth i (thens st),
                               status := (status st)(derived := Fulfilled) \<rparr>)
                | CallTask task \<Rightarrow>
                    Some (st\<lparr> thens := remove_nth i (thens st),
                               started := started st @ [task],
                               adopts := adopts st @ [(Result task, derived)] \<rparr>)))
      else None)"
| "step (Adopt i) st =
     (if i < length (adopts st) then
        (case adopts st ! i of
           (inner, outer) \<Rightarrow>
             if status st inner = Pending then None
             else Some (st\<lparr> adopts := remove_nth i (adopts st),
                             status := (status st)(outer := status st inner) \<rparr>))
      else None)"
| "step (Settle task ok) st =
     (if task \<in> set (started st) \<and> status st (Result task) = Pending
      then Some (st\<lparr> status := (status st)(Result task := (if ok then Fulfilled else Rejected)) \<rparr>)
      else None)"

text \<open>
A run of the system: the steps taken one after the other.
\<close>

fun exec :: "action list \<Rightarrow> queue \<Rightarrow> queue option" where
  "exec [] st = Some st"
| "exec (a # as) st = (case step a st of None \<Rightarrow> None | Some st' \<Rightarrow> exec as st')"

section \<open>Vocabulary of the properties\<close>

subsection \<open>Blinding\<close>

text \<open>
  The random source is well formed up to \<open>n\<close> when every draw is an index the loop may
  swap with: \<open>Math.random()\<close> is in [0, 1), so the floor is at most \<open>index\<close>.
\<close>

definition drawsInRange :: "(nat \<Rightarrow> nat) \<Rightarrow> nat \<Rightarrow> bool" where
  "drawsInRange rnd n = (\<forall>i \<in> {1..<n}. rnd i \<le> i)"

text \<open>The condition result a blinded response was made from: the four fields it copies.\<close>

definition unblind :: "BlindedResponse \<Rightarrow> ConditionResult" where
  "unblind b =
     \<lparr> conditionId = sourceConditionId b,
       conditionLabel = sourceConditionLabel b,
       answer = blind_answer b,
       transcript = blind_transcript b \<rparr>"

text \<open>
  The random source whose draws at the indices 3, 2 and 1 are \<open>j3\<close>, \<open>j2\<close> and \<open>j1\<close>:
  the three draws of a shuffle of four results.
\<close>

definition draws3 :: "nat \<times> nat \<times> nat \<Rightarrow> nat \<Rightarrow> nat" where
  "draws3 t index = (case t of (j3, j2, j1) \<Rightarrow> if index = 3 then j3 else if index = 2 then j2 else j1)"

text \<open>
  The triples of draws that \<open>Math.floor(Math.random() * (index + 1))\<close> can produce at
  the indices 3, 2 and 1.
\<close>

definition drawSpace :: "(nat \<times> nat \<times> nat) set" where
  "drawSpace = {0..3} \<times> {0..2} \<times> {0..1}"

subsection \<open>Debate\<close>

text \<open>Every call of the gateway returns a text, whatever the input and the state.\<close>

definition alwaysAnswers :: "'s llm \<Rightarrow> bool" where
  "alwaysAnswers callLlm = (\<forall>input s. \<exists>text s'. callLlm input s = (Inr text, s'))"

text \<open>The round number and the agent id of each turn of a transcript, in order.\<close>

definition slots :: "DebateTurn list \<Rightarrow> (number \<times> string) list" where
  "slots ts = map (\<lambda>t. (turn_round t, agentId t)) ts"

text \<open>One slot per agent, in roster order, for each of the rounds 1 to \<open>rounds\<close>.\<close>

definition roundSlots :: "DebateAgent list \<Rightarrow> int \<Rightarrow> (number \<times> string) list" where
  "roundSlots agents rounds = concat (map (\<lambda>r. map (\<lambda>a. (Num r, agent_id a)) agents) [1..rounds])"

subsection \<open>The calls a debate makes\<close>

text \<open>
  A record of the calls of the gateway, each input with its result. \<open>logged callLlm\<close>
  behaves as \<open>callLlm\<close> and keeps the record beside the state.
\<close>

type_synonym callLog = "(LlmCallInput \<times> (thrown + string)) list"

definition logged :: "'s llm \<Rightarrow> (callLog \<times> 's) llm" where
  "logged callLlm input ls =
     (case callLlm input (snd ls) of (r, s') \<Rightarrow> (r, (fst ls @ [(input, r)], s')))"

text \<open>
  The last message of the input of a call: the prompt that the loop has pushed to the
  history of the acting agent just before it calls the gateway.
\<close>

definition promptOf :: "LlmCallInput \<times> (thrown + string) \<Rightarrow> ChatMessage option" where
  "promptOf entry = (case messages (fst entry) of [] \<Rightarrow> None | m # ms \<Rightarrow> Some (last (m # ms)))"

text \<open>
  A call made for an agent with a prompt: it goes to the agent's provider and model, and
  its last message is the prompt, a user message.
\<close>

definition callFor :: "DebateAgent \<Rightarrow> string \<Rightarrow> LlmCallInput \<times> (thrown + string) \<Rightarrow> bool" where
  "callFor agent prompt entry =
     (provider (fst entry) = agent_provider agent \<and> model (fst entry) = agent_model agent
      \<and> promptOf entry = Some \<lparr> role = User, content = prompt \<rparr>)"

text \<open>The text that a call returned.\<close>

definition replyOf :: "LlmCallInput \<times> (thrown + string) \<Rightarrow> string" where
  "replyOf entry = (case snd entry of Inr reply \<Rightarrow> reply | Inl e \<Rightarrow> [])"

text \<open>
The transcript turns of round \<open>r\<close> that the loop makes from the calls of that round.
\<close>

definition roundTurns :: "DebateAgent list \<Rightarrow> int \<Rightarrow> callLog \<Rightarrow> DebateTurn list" where
  "roundTurns agents r es = map (\<lambda>(a, e). mkTurn r a (replyOf e)) (zip agents es)"

text \<open>The calls that a debate makes, in order.\<close>

definition callsOf ::
  "'s llm \<Rightarrow> number \<Rightarrow> string \<Rightarrow> DebateAgent list \<Rightarrow> number \<Rightarrow> 's \<Rightarrow> callLog" where
  "callsOf callLlm maxTok q agents rounds s =
     fst (snd (runDebate (logged callLlm) maxTok q agents rounds ([], s)))"

text \<open>
  The number of rounds of a debate with the given round count: none for a count that is
  not a number or not positive.
\<close>

definition roundCount :: "number \<Rightarrow> nat" where
  "roundCount rounds = (case rounds of Num n \<Rightarrow> nat n | NaN \<Rightarrow> 0)"

text \<open>
  A text cut to at most \<open>n\<close> characters: a longer text keeps its first \<open>n - 3\<close>
  characters, followed by three dots.
\<close>

definition truncated :: "nat \<Rightarrow> string \<Rightarrow> string" where
  "truncated n t = (if length t \<le> n then t else take (n - 3) t @ ''...'')"

text \<open>
  The entry of the peer context for a turn of the agent \<open>a\<close> with the content \<open>c\<close>.
\<close>

definition peerEntry :: "DebateAgent \<Rightarrow> string \<Rightarrow> string" where
  "peerEntry a c = ''- '' @ agent_name a @ '': '' @ truncated 280 c"

text \<open>
  The record of the rounds from round \<open>r\<close> on, one list of calls for each round, where
  \<open>prev\<close> are the turns of round \<open>r - 1\<close>: the \<open>j\<close>-th call of a round carries the
  prompt that \<open>buildRoundPrompt\<close> builds for the \<open>j\<close>-th agent from the turns of the
  round before, and a round that is followed by another is complete, every call answered.
\<close>

fun chunksOk :: "string \<Rightarrow> number \<Rightarrow> DebateAgent list \<Rightarrow> int \<Rightarrow> DebateTurn list \<Rightarrow> callLog list \<Rightarrow> bool" where
  "chunksOk q R agents r prev [] = True"
| "chunksOk q R agents r prev (es # rest) =
     (length es \<le> length agents
      \<and> (\<forall>j < length es. callFor (agents ! j) (buildRoundPrompt q r R (agents ! j) prev) (es ! j))
      \<and> (rest \<noteq> [] \<longrightarrow> length es = length agents \<and> (\<forall>e \<in> set es. \<not> isl (snd e)))
      \<and> chunksOk q R agents (r + 1) (roundTurns agents r es) rest)"

text \<open>The transcript turns that the loop makes from the calls of the rounds from \<open>r\<close> on.\<close>

fun turnsOf :: "DebateAgent list \<Rightarrow> int \<Rightarrow> callLog list \<Rightarrow> DebateTurn list" where
  "turnsOf agents r [] = []"
| "turnsOf agents r (es # rest) = roundTurns agents r es @ turnsOf agents (r + 1) rest"

subsection \<open>Coordinator\<close>

text \<open>
  The outcomes of the runners when each starts in the state the one before has left:
  what the \<open>try\<close> of the sequential loop sees.
\<close>

fun settleSeq :: "'s runner list \<Rightarrow> 's \<Rightarrow> (thrown + ConditionResult) list" where
  "settleSeq [] s = []"
| "settleSeq (runCondition # rest) s = fst (runCondition s) # settleSeq rest (snd (runCondition s))"

text \<open>
  The result in slot \<open>index\<close> for an outcome: the value of a runner that returned, the
  synthetic failure result for one that threw.
\<close>

definition resultOf :: "nat \<Rightarrow> thrown + ConditionResult \<Rightarrow> ConditionResult" where
  "resultOf index outcome =
     (case outcome of Inr v \<Rightarrow> v | Inl reason \<Rightarrow> buildFailedConditionResult index reason)"

text \<open>
The condition ids of the four pipelines, in the order of \<open>conditionRunners\<close>.
\<close>

definition conditionIds :: "ExperimentConditionId list" where
  "conditionIds = [Single_plain, Multi_mixed_models, Multi_same_model_roles, Single_role]"

subsection \<open>Retry and fallback policy\<close>








subsection \<open>Request queue\<close>

text \<open>
A task is in flight from the call of its function until its promise settles.
\<close>

definition inFlight :: "queue \<Rightarrow> nat \<Rightarrow> bool" where
  "inFlight st task = (task \<in> set (started st) \<and> status st (Result task) = Pending)"

text \<open>
The promise of the task is fulfilled or rejected.
\<close>

definition settled :: "queue \<Rightarrow> nat \<Rightarrow> bool" where
  "settled st task = (status st (Result task) \<noteq> Pending)"

text \<open>
Nothing is left to do but to wait for the tasks in flight: no reaction and no adoption is ready.
\<close>

definition quiescent :: "queue \<Rightarrow> bool" where
  "quiescent st =
     (list_all (\<lambda>(source, h, derived). status st source = Pending) (thens st)
      \<and> list_all (\<lambda>(inner, outer). status st inner = Pending) (adopts st))"

text \<open>
The value of \<open>geminiQueue\<close> that the \<open>k\<close>-th call of \<open>enqueueGeminiWork\<close> finds.
\<close>

fun queueBefore :: "nat \<Rightarrow> pid" where
  "queueBefore 0 = Initial"
| "queueBefore (Suc k) = Tail k"

text \<open>
  The invariant of the chain: \<open>geminiQueue\<close> is the tail of the last task; the only
  reactions and adoptions are those that \<open>enqueueGeminiWork\<close> and the calls of tasks
  have made; a task was started only after the tail before it had settled; the promises
  of a task settle in the order \<open>Result\<close>, \<open>Run\<close>, \<open>Tail\<close>; and no reaction or
  adoption that is still needed has been lost.
\<close>

definition chainInv :: "queue \<Rightarrow> bool" where
  "chainInv st =
     (geminiQueue st = queueBefore (ntasks st)
      \<and> status st Initial = Fulfilled
      \<and> (\<forall>x \<in> set (thens st).
            (\<exists>k < ntasks st. x = (queueBefore k, CallTask k, Run k))
          \<or> (\<exists>k < ntasks st. x = (Run k, ReturnUndefined, Tail k)))
      \<and> (\<forall>x \<in> set (adopts st). \<exists>k < ntasks st. x = (Result k, Run k))
      \<and> (\<forall>k \<in> set (started st). k < ntasks st \<and> status st (queueBefore k) \<noteq> Pending)
      \<and> (\<forall>k. status st (Result k) \<noteq> Pending \<longrightarrow> k \<in> set (started st))
      \<and> (\<forall>k. status st (Run k) \<noteq> Pending \<longrightarrow> status st (Result k) \<noteq> Pending)
      \<and> (\<forall>k. status st (Tail k) \<noteq> Pending \<longrightarrow> status st (Run k) \<noteq> Pending)
      \<and> (\<forall>k < ntasks st. k \<notin> set (started st) \<longrightarrow> (queueBefore k, CallTask k, Run k) \<in> set (thens st))
      \<and> (\<forall>k \<in> set (started st). status st (Run k) = Pending \<longrightarrow> (Result k, Run k) \<in> set (adopts st))
      \<and> (\<forall>k < ntasks st. status st (Tail k) = Pending \<longrightarrow> (Run k, ReturnUndefined, Tail k) \<in> set (thens st)))"

section \<open>Sample data for the closed instances\<close>

text \<open>
A result of condition \<open>c\<close> with the answer \<open>a\<close> and no transcript.
\<close>

definition sampleResult :: "ExperimentConditionId \<Rightarrow> string \<Rightarrow> ConditionResult" where
  "sampleResult c a =
     \<lparr> conditionId = c, conditionLabel = ''label'', answer = a, transcript = [] \<rparr>"

text \<open>
Five results, so that the fifth meets a label past the four letters.
\<close>

definition fiveResults :: "ConditionResult list" where
  "fiveResults =
     [sampleResult Single_plain ''a'', sampleResult Multi_mixed_models ''b'',
      sampleResult Multi_same_model_roles ''c'', sampleResult Single_role ''d'',
      sampleResult Single_plain ''e'']"

text \<open>
Four results with distinct answers.
\<close>

definition fourResults :: "ConditionResult list" where
  "fourResults = take 4 fiveResults"

text \<open>A gateway that always answers: its state counts the calls, the reply names the count.\<close>

definition counterLlm :: "nat llm" where
  "counterLlm input n = (Inr (''reply '' @ showNat n), Suc n)"

text \<open>
The first two agents of the same-model roster: a skeptic and a domain expert.
\<close>

definition twoAgents :: "DebateAgent list" where
  "twoAgents = take 2 (buildSameModelRoleAgents Gemini ''gemini-2.5-flash'')"

text \<open>
A runner that returns, and one that throws an \<open>Error\<close> with message \<open>m\<close>.
\<close>

definition okRunner :: "ExperimentConditionId \<Rightarrow> string \<Rightarrow> nat runner" where
  "okRunner c a n = (Inr (sampleResult c a), Suc n)"

definition failRunner :: "string \<Rightarrow> nat runner" where
  "failRunner m n = (Inl (JsError m), Suc n)"

text \<open>
Four runners of which the second throws.
\<close>

definition sampleRunners :: "nat runner list" where
  "sampleRunners =
     [okRunner Single_plain ''a'', failRunner ''boom'', okRunner Multi_same_model_roles ''c'',
      okRunner Single_role ''d'']"

text \<open>
A configuration: two rounds, Gemini only, conditions one after the other.
\<close>

definition sampleEnv :: environment where
  "sampleEnv =
     \<lparr> MAX_DEBATE_RESPONSE_TOKENS = Num 450, DEFAULT_DEBATE_ROUNDS = Num 2, FORCE_GEMINI_ONLY = True,
       SERIALIZE_CONDITIONS = True,
       getModelCatalog = \<lparr> cat_openai = ''gpt-4.1-mini'', cat_anthropic = ''claude-3-7-sonnet-latest'',
                           cat_gemini = ''gemini-2.5-flash'', cat_xai = ''grok-2-latest'' \<rparr>,
       randomUUID = ''run-1'', nowISOString = ''2025-01-01T00:00:00.000Z'' \<rparr>"













text \<open>
The calls of a debate of two agents over two rounds.
\<close>

definition sampleLog :: callLog where
  "sampleLog = callsOf counterLlm (Num 450) ''Why?'' twoAgents (Num 2) 0"

text \<open>
  Two tasks are enqueued; the first is started and fails; the chain passes the failure
  on and starts the second.
\<close>

definition failThenNext :: "action list" where
  "failThenNext = [Enqueue, Enqueue, React 0, Settle 0 False, Adopt 0, React 0, React 0]"

section \<open>Properties of the shuffle\<close>

lemma length_swapAt: "length (swapAt i j xs) = length xs"
  by (simp add: swapAt_def)

lemma mset_swapAt: "i < length xs \<Longrightarrow> j < length xs \<Longrightarrow> mset (swapAt i j xs) = mset xs"
  by (simp add: swapAt_def mset_swap)

lemma length_shuffleLoop: "length (shuffleLoop rnd n xs) = length xs"
  by (induction n arbitrary: xs) (simp_all add: length_swapAt)

lemma mset_shuffleLoop:
  "n < length xs \<Longrightarrow> \<forall>i \<in> {1..<Suc n}. rnd i \<le> i \<Longrightarrow> mset (shuffleLoop rnd n xs) = mset xs"
proof (induction n arbitrary: xs)
  case 0
  then show ?case by simp
next
  case (Suc n)
  have r: "rnd (Suc n) \<le> Suc n"
    using Suc.prems(2) by simp
  have m: "mset (swapAt (Suc n) (rnd (Suc n)) xs) = mset xs"
    using Suc.prems(1) r by (intro mset_swapAt) simp_all
  have "mset (shuffleLoop rnd n (swapAt (Suc n) (rnd (Suc n)) xs))
      = mset (swapAt (Suc n) (rnd (Suc n)) xs)"
    using Suc.prems by (intro Suc.IH) (simp_all add: length_swapAt)
  with m show ?case by simp
qed

lemma unblind_blindOne: "unblind (blindOne i r) = r"
  by (simp add: unblind_def blindOne_def)

lemma map_unblind_enumerate:
  "map unblind (map (\<lambda>(index, result). blindOne index result) (enumerate k xs)) = xs"
  by (induction xs arbitrary: k) (simp_all add: unblind_blindOne)

lemma unblind_blindAndShuffle:
  "map unblind (blindAndShuffle rnd results) = shuffleLoop rnd (length results - 1) results"
  by (simp add: blindAndShuffle_def Let_def map_unblind_enumerate del: map_map)

lemma length_blindAndShuffle: "length (blindAndShuffle rnd results) = length results"
  by (simp add: blindAndShuffle_def Let_def length_shuffleLoop)

lemma mset_unblind_blindAndShuffle:
  assumes "drawsInRange rnd (length results)"
  shows "mset (map unblind (blindAndShuffle rnd results)) = mset results"
proof -
  have "results = [] \<or> results \<noteq> []" by simp
  then show ?thesis
  proof (elim disjE)
    assume "results = []"
    then show ?thesis by (simp add: blindAndShuffle_def)
  next
    assume ne: "results \<noteq> []"
    then have lt: "length results - 1 < length results" by simp
    have "\<forall>i \<in> {1..<Suc (length results - 1)}. rnd i \<le> i"
      using assms ne by (simp add: drawsInRange_def)
    with lt show ?thesis
      by (simp only: unblind_blindAndShuffle mset_shuffleLoop)
  qed
qed

lemma blindId_blindAndShuffle:
  "i < length results \<Longrightarrow> blindId (blindAndShuffle rnd results ! i) = blindLabel i"
  by (simp add: blindAndShuffle_def Let_def length_shuffleLoop nth_enumerate_eq blindOne_def)

section \<open>Properties of the debate loops\<close>

lemma agentsLoop_shape:
  "agentsLoop callLlm maxTok q r R P ags h cs s = (Inr (h', cs'), s')
   \<Longrightarrow> dom h' = dom h \<and> (\<exists>contents. length contents = length ags
          \<and> cs' = cs @ map (\<lambda>(a, c). mkTurn r a c) (zip ags contents))"
proof (induction ags arbitrary: h cs s)
  case Nil
  then show ?case by simp
next
  case (Cons a ags)
  from Cons.prems obtain history where hist: "h (agent_id a) = Some history"
    by (auto simp: Let_def split: option.splits)
  let ?h1 = "history @ [\<lparr> role = User, content = buildRoundPrompt q r R a P \<rparr>]"
  let ?inp = "\<lparr> provider = agent_provider a, model = agent_model a,
                                messages = ?h1, temperature = Some (1 / 2),
                                maxTokens = Some maxTok \<rparr>"
  from Cons.prems hist obtain c s1 where call: "callLlm ?inp s = (Inr c, s1)"
    by (auto simp: Let_def split: prod.splits sum.splits)
  let ?h2 = "h(agent_id a \<mapsto> ?h1 @ [\<lparr> role = Assistant, content = c \<rparr>])"
  from Cons.prems hist call
  have rest: "agentsLoop callLlm maxTok q r R P ags ?h2 (cs @ [mkTurn r a c]) s1 = (Inr (h', cs'), s')"
    by (simp add: Let_def)
  from Cons.IH[OF rest] obtain contents where
    d: "dom h' = dom ?h2" and l: "length contents = length ags"
    and c: "cs' = (cs @ [mkTurn r a c]) @ map (\<lambda>(a, c). mkTurn r a c) (zip ags contents)"
    by blast
  have "dom h' = dom h" using d hist by auto
  moreover have "length (c # contents) = length (a # ags)" using l by simp
  moreover have "cs' = cs @ map (\<lambda>(a, c). mkTurn r a c) (zip (a # ags) (c # contents))"
    using c by simp
  ultimately show ?case by blast
qed

lemma agentsLoop_succeeds:
  "alwaysAnswers callLlm \<Longrightarrow> agent_id ` set ags \<subseteq> dom h
   \<Longrightarrow> \<exists>h' cs' s'. agentsLoop callLlm maxTok q r R P ags h cs s = (Inr (h', cs'), s')"
proof (induction ags arbitrary: h cs s)
  case Nil
  then show ?case by simp
next
  case (Cons a ags)
  from Cons.prems obtain history where hist: "h (agent_id a) = Some history"
    by auto
  let ?h1 = "history @ [\<lparr> role = User, content = buildRoundPrompt q r R a P \<rparr>]"
  let ?inp = "\<lparr> provider = agent_provider a, model = agent_model a,
                                messages = ?h1, temperature = Some (1 / 2),
                                maxTokens = Some maxTok \<rparr>"
  from Cons.prems(1) obtain c s1 where call: "callLlm ?inp s = (Inr c, s1)"
    unfolding alwaysAnswers_def by blast
  let ?h2 = "h(agent_id a \<mapsto> ?h1 @ [\<lparr> role = Assistant, content = c \<rparr>])"
  have "agent_id ` set ags \<subseteq> dom ?h2" using Cons.prems(2) by auto
  from Cons.IH[OF Cons.prems(1) this]
  have ex: "\<exists>h' cs' s'. agentsLoop callLlm maxTok q r R P ags ?h2 (cs @ [mkTurn r a c]) s1
     = (Inr (h', cs'), s')" .
  have step: "agentsLoop callLlm maxTok q r R P (a # ags) h cs s
     = agentsLoop callLlm maxTok q r R P ags ?h2 (cs @ [mkTurn r a c]) s1"
    using hist call by (simp add: Let_def)
  show ?case unfolding step by (rule ex)
qed

lemma slots_zip: "length ags = length contents \<Longrightarrow>
  slots (map (\<lambda>(a, c). mkTurn r a c) (zip ags contents)) = map (\<lambda>a. (Num r, agent_id a)) ags"
  by (induction ags contents rule: list_induct2) (simp_all add: slots_def mkTurn_def)

lemma roundsLoop_NaN: "roundsLoop callLlm maxTok q agents NaN r h T s = (Inr (h, T), s)"
  by (simp add: roundsLoop.simps)

lemma roundsLoop_shape:
  "roundsLoop callLlm maxTok q agents (Num rounds) r h T s = (Inr (h', T'), s')
   \<Longrightarrow> dom h' = dom h
     \<and> slots T' = slots T @ concat (map (\<lambda>k. map (\<lambda>a. (Num k, agent_id a)) agents) [r..rounds])"
proof (induction callLlm maxTok q agents "Num rounds" r h T s rule: roundsLoop.induct)
  case (1 callLlm maxTok q agents r h T s)
  have "r \<le> rounds \<or> \<not> r \<le> rounds" by simp
  then show ?case
  proof (elim disjE)
    assume le: "r \<le> rounds"
    then have le': "lessEq (Num r) (Num rounds)" by simp
    let ?P = "filter (\<lambda>turn. turn_round turn = Num (r - 1)) T"
    from "1.prems" le obtain h1 cs s1 where
      inner: "agentsLoop callLlm maxTok q r (Num rounds) ?P agents h [] s = (Inr (h1, cs), s1)"
      and rest: "roundsLoop callLlm maxTok q agents (Num rounds) (r + 1) h1 (T @ cs) s1 = (Inr (h', T'), s')"
      by (subst (asm) roundsLoop.simps) (auto simp: Let_def split: prod.splits sum.splits)
    from agentsLoop_shape[OF inner] obtain contents where
      d1: "dom h1 = dom h" and l: "length contents = length agents"
      and cs: "cs = map (\<lambda>(a, c). mkTurn r a c) (zip agents contents)"
      by auto
    have scs: "slots cs = map (\<lambda>a. (Num r, agent_id a)) agents"
      using l cs by (simp add: slots_zip)
    from "1.hyps"[OF le' refl inner[symmetric] refl refl rest]
    have d2: "dom h' = dom h1"
      and sl: "slots T' = slots (T @ cs) @ concat (map (\<lambda>k. map (\<lambda>a. (Num k, agent_id a)) agents) [r + 1..rounds])"
      by simp_all
    have "[r..rounds] = r # [r + 1..rounds]" using le by (simp add: upto_rec1)
    then show ?thesis using d1 d2 sl scs by (simp add: slots_def)
  next
    assume gt: "\<not> r \<le> rounds"
    with "1.prems" show ?thesis
      by (subst (asm) roundsLoop.simps) (simp add: slots_def)
  qed
qed

lemma roundsLoop_dom:
  "roundsLoop callLlm maxTok q agents rounds r h T s = (Inr (h', T'), s') \<Longrightarrow> dom h' = dom h"
proof (cases rounds)
  case (Num n)
  assume "roundsLoop callLlm maxTok q agents rounds r h T s = (Inr (h', T'), s')"
  with Num show ?thesis using roundsLoop_shape[of callLlm maxTok q agents n r h T s h' T' s'] by simp
next
  case NaN
  assume "roundsLoop callLlm maxTok q agents rounds r h T s = (Inr (h', T'), s')"
  with NaN show ?thesis by (simp add: roundsLoop_NaN)
qed

lemma roundsLoop_succeeds:
  "alwaysAnswers callLlm \<Longrightarrow> agent_id ` set agents \<subseteq> dom h
   \<Longrightarrow> \<exists>h' T' s'. roundsLoop callLlm maxTok q agents rounds r h T s = (Inr (h', T'), s')"
proof (induction callLlm maxTok q agents rounds r h T s rule: roundsLoop.induct)
  case (1 callLlm maxTok q agents rounds r h T s)
  have "lessEq (Num r) rounds \<or> \<not> lessEq (Num r) rounds" by simp
  then show ?case
  proof (elim disjE)
    assume le: "lessEq (Num r) rounds"
    let ?P = "filter (\<lambda>turn. turn_round turn = Num (r - 1)) T"
    from agentsLoop_succeeds[OF "1.prems"] obtain h1 cs s1 where
      inner: "agentsLoop callLlm maxTok q r rounds ?P agents h [] s = (Inr (h1, cs), s1)"
      by blast
    have d1: "dom h1 = dom h" using agentsLoop_shape[OF inner] by simp
    have "\<exists>h' T' s'. roundsLoop callLlm maxTok q agents rounds (r + 1) h1 (T @ cs) s1 = (Inr (h', T'), s')"
      using "1.prems" d1 by (intro "1.IH"[OF le refl inner[symmetric] refl refl]) simp_all
    then show ?thesis
      using le inner by (subst roundsLoop.simps) (simp add: Let_def)
  next
    assume gt: "\<not> lessEq (Num r) rounds"
    then show ?thesis
      by (subst roundsLoop.simps) simp
  qed
qed

lemma dom_initHistories_aux:
  "dom (fold (\<lambda>agent h. h(agent_id agent \<mapsto> [\<lparr> role = System, content = debateSystemPrompt (persona agent) \<rparr>])) agents h0)
     = dom h0 \<union> agent_id ` set agents"
  by (induction agents arbitrary: h0) auto

lemma dom_initHistories: "dom (initHistories agents) = agent_id ` set agents"
  by (simp add: initHistories_def dom_initHistories_aux)

lemma find_in_set: "find P xs = Some x \<Longrightarrow> x \<in> set xs"
  by (induction xs) (auto split: if_splits)

lemma findModerator_Some_in: "findModerator agents = Some m \<Longrightarrow> m \<in> set agents"
  by (auto simp: findModerator_def split: option.splits list.splits dest: find_in_set)

lemma findModerator_in:
  "agents \<noteq> [] \<Longrightarrow> \<exists>m. findModerator agents = Some m \<and> m \<in> set agents"
  using findModerator_Some_in [of agents]
  by (auto simp: findModerator_def split: option.splits list.splits)

lemma length_roundSlots: "length (roundSlots agents rounds) = nat rounds * length agents"
  by (simp add: roundSlots_def length_concat comp_def sum_list_triv)

lemma runDebate_shape:
  assumes "runDebate callLlm maxTok q agents (Num rounds) s = (Inr res, s')"
  shows "\<exists>m. findModerator agents = Some m
     \<and> slots (debate_transcript res) = roundSlots agents rounds @ [(Num (rounds + 1), agent_id m)]
     \<and> debate_transcript res \<noteq> []
     \<and> debate_answer res = turn_content (last (debate_transcript res))"
proof -
  from assms obtain h T s1 where
    loop: "roundsLoop callLlm maxTok q agents (Num rounds) 1 (initHistories agents) [] s = (Inr (h, T), s1)"
    by (auto simp: runDebate_def split: prod.splits sum.splits)
  from assms loop obtain m where m: "findModerator agents = Some m"
    by (auto simp: runDebate_def split: option.splits)
  from assms loop m obtain mh where mh: "h (agent_id m) = Some mh"
    by (auto simp: runDebate_def split: option.splits)
  from assms loop m mh obtain finalAnswer where
    res: "res = \<lparr> debate_answer = finalAnswer,
                   debate_transcript = T @ [synthesisTurn (Num rounds) m finalAnswer] \<rparr>"
    by (auto simp: runDebate_def split: prod.splits sum.splits)
  have "slots T = roundSlots agents rounds"
    using roundsLoop_shape[OF loop] by (simp add: slots_def roundSlots_def)
  then show ?thesis
    using m res by (simp add: slots_def synthesisTurn_def)
qed

lemma runDebate_succeeds:
  assumes "alwaysAnswers callLlm" "agents \<noteq> []"
  shows "\<exists>res s'. runDebate callLlm maxTok q agents rounds s = (Inr res, s')"
proof -
  have "agent_id ` set agents \<subseteq> dom (initHistories agents)"
    by (simp add: dom_initHistories)
  from roundsLoop_succeeds[OF assms(1) this] obtain h T s1 where
    loop: "roundsLoop callLlm maxTok q agents rounds 1 (initHistories agents) [] s = (Inr (h, T), s1)"
    by blast
  from findModerator_in[OF assms(2)] obtain m where
    m: "findModerator agents = Some m" and min: "m \<in> set agents" by blast
  have "dom h = agent_id ` set agents"
    using roundsLoop_dom[OF loop] by (simp add: dom_initHistories)
  with min obtain mh where mh: "h (agent_id m) = Some mh" by auto
  let ?inp = "\<lparr> provider = agent_provider m, model = agent_model m,
                 messages = mh @ [\<lparr> role = User, content = buildModeratorPrompt q T rounds \<rparr>],
                 temperature = Some (1 / 5), maxTokens = Some (Num 950) \<rparr>"
  from assms(1) obtain a s2 where call: "callLlm ?inp s1 = (Inr a, s2)"
    unfolding alwaysAnswers_def by blast
  show ?thesis
    using loop m mh call by (simp add: runDebate_def)
qed

lemma alwaysAnswers_counterLlm: "alwaysAnswers counterLlm"
  by (simp add: alwaysAnswers_def counterLlm_def)

lemma roundSlots_one: "roundSlots agents 1 = map (\<lambda>a. (Num 1, agent_id a)) agents"
  by (simp add: roundSlots_def upto_rec1)

lemma runDebateCondition_integer_rounds:
  "runDebateCondition callLlm maxTok cid clabel q agents (Num rounds) s
     = (case runDebate callLlm maxTok q agents (Num (if rounds \<le> 0 then 1 else rounds)) s of
          (Inl e, s') \<Rightarrow> (Inl e, s')
        | (Inr debate, s') \<Rightarrow>
            (Inr \<lparr> conditionId = cid, conditionLabel = clabel, answer = debate_answer debate,
                   transcript = debate_transcript debate \<rparr>, s'))
   \<and> (rounds \<le> 0 \<longrightarrow>
        (\<forall>res s'. runDebateCondition callLlm maxTok cid clabel q agents (Num rounds) s = (Inr res, s')
           \<longrightarrow> (\<exists>m. findModerator agents = Some m
                 \<and> slots (transcript res)
                     = map (\<lambda>a. (Num 1, agent_id a)) agents @ [(Num 2, agent_id m)])))
   \<and> (alwaysAnswers callLlm \<and> agents \<noteq> [] \<longrightarrow>
        (\<exists>res s'. runDebateCondition callLlm maxTok cid clabel q agents (Num rounds) s = (Inr res, s')))"
proof (intro conjI impI allI)
  have mx: "mathMax (Num 1) (Num rounds) = Num (if rounds \<le> 0 then 1 else rounds)" by simp
  show "runDebateCondition callLlm maxTok cid clabel q agents (Num rounds) s
     = (case runDebate callLlm maxTok q agents (Num (if rounds \<le> 0 then 1 else rounds)) s of
          (Inl e, s') \<Rightarrow> (Inl e, s')
        | (Inr debate, s') \<Rightarrow>
            (Inr \<lparr> conditionId = cid, conditionLabel = clabel, answer = debate_answer debate,
                   transcript = debate_transcript debate \<rparr>, s'))"
    unfolding runDebateCondition_def mx ..
next
  fix res s'
  assume le: "rounds \<le> 0"
    and run: "runDebateCondition callLlm maxTok cid clabel q agents (Num rounds) s = (Inr res, s')"
  from le have mx: "mathMax (Num 1) (Num rounds) = Num 1" by simp
  from run obtain d where
    deb: "runDebate callLlm maxTok q agents (Num 1) s = (Inr d, s')"
    and res: "transcript res = debate_transcript d"
    unfolding runDebateCondition_def mx
    by (auto split: prod.splits sum.splits)
  from runDebate_shape[OF deb] res
  show "\<exists>m. findModerator agents = Some m
     \<and> slots (transcript res) = map (\<lambda>a. (Num 1, agent_id a)) agents @ [(Num 2, agent_id m)]"
    by (auto simp: roundSlots_one)
next
  assume "alwaysAnswers callLlm \<and> agents \<noteq> []"
  then have a: "alwaysAnswers callLlm" and n: "agents \<noteq> []" by simp_all
  from runDebate_succeeds[OF a n] obtain d s1 where
    "runDebate callLlm maxTok q agents (mathMax (Num 1) (Num rounds)) s = (Inr d, s1)" by blast
  then show "\<exists>res s'. runDebateCondition callLlm maxTok cid clabel q agents (Num rounds) s = (Inr res, s')"
    by (simp add: runDebateCondition_def)
qed

section \<open>Properties of the coordinator\<close>

lemma sequentialLoop_results:
  "fst (sequentialLoop index runners results s)
     = results @ map (\<lambda>(i, out). resultOf i out) (enumerate index (settleSeq runners s))"
proof (induction runners arbitrary: index results s)
  case Nil
  then show ?case by simp
next
  case (Cons run rest)
  obtain out s1 where r: "run s = (out, s1)" by (cases \<open>run s\<close>)
  show ?case
    using Cons.IH[of "Suc index" _ s1] r
    by (cases out) (simp_all add: resultOf_def)
qed

lemma runConditionsSequentially_results:
  "fst (runConditionsSequentially runners s)
     = map (\<lambda>(i, out). resultOf i out) (enumerate 0 (settleSeq runners s))"
  by (simp add: runConditionsSequentially_def sequentialLoop_results)

lemma runConditionsInParallel_results:
  "runConditionsInParallel views runners
     = map (\<lambda>(i, out). resultOf i out) (enumerate 0 (allSettled views runners))"
  by (simp add: runConditionsInParallel_def resultOf_def)

lemma length_settleSeq: "length (settleSeq runners s) = length runners"
  by (induction runners arbitrary: s) simp_all

lemma length_allSettled: "length (allSettled views runners) = length runners"
  by (simp add: allSettled_def)

lemma length_fallbackMappings: "length fallbackMappings = 4"
  by (simp add: fallbackMappings_def)

lemma isolated_outcomes:
  assumes len: "length outs = 4" and k: "k < 4"
    and res: "res = map (\<lambda>(i, out). resultOf i out) (enumerate 0 outs)"
    and fail: "outs ! k = Inl e" and ok: "\<forall>j<4. j \<noteq> k \<longrightarrow> \<not> isl (outs ! j)"
  shows "length res = 4
     \<and> res ! k = \<lparr> conditionId = fst (fallbackMappings ! k),
                   conditionLabel = snd (fallbackMappings ! k),
                   answer = ''This condition failed to run.'' @ nl @ nl @ ''Error: ''
                     @ (if instanceofError e then message e else ''Unknown failure''),
                   transcript = [] \<rparr>
     \<and> (\<forall>j<4. j \<noteq> k \<longrightarrow> outs ! j = Inr (res ! j))"
proof (intro conjI allI impI)
  show "length res = 4" using len res by simp
  have "res ! k = resultOf k (outs ! k)"
    using len k res by (simp add: nth_enumerate_eq)
  also have "\<dots> = buildFailedConditionResult k e"
    using fail by (simp add: resultOf_def)
  also have "\<dots> = \<lparr> conditionId = fst (fallbackMappings ! k),
                   conditionLabel = snd (fallbackMappings ! k),
                   answer = ''This condition failed to run.'' @ nl @ nl @ ''Error: ''
                     @ (if instanceofError e then message e else ''Unknown failure''),
                   transcript = [] \<rparr>"
    using k by (simp add: buildFailedConditionResult_def errorMessage_def Let_def
        length_fallbackMappings)
  finally show "res ! k = \<lparr> conditionId = fst (fallbackMappings ! k),
                   conditionLabel = snd (fallbackMappings ! k),
                   answer = ''This condition failed to run.'' @ nl @ nl @ ''Error: ''
                     @ (if instanceofError e then message e else ''Unknown failure''),
                   transcript = [] \<rparr>" .
next
  fix j assume j: "j < 4" "j \<noteq> k"
  then have "\<not> isl (outs ! j)" using ok by simp
  then obtain r where r: "outs ! j = Inr r" by (cases \<open>outs ! j\<close>) simp_all
  have "res ! j = resultOf j (outs ! j)"
    using len j res by (simp add: nth_enumerate_eq)
  with r show "outs ! j = Inr (res ! j)" by (simp add: resultOf_def)
qed

lemma settleSeq_sampleRunners:
  "settleSeq sampleRunners 0
     = [Inr (sampleResult Single_plain ''a''), Inl (JsError ''boom''),
        Inr (sampleResult Multi_same_model_roles ''c''), Inr (sampleResult Single_role ''d'')]"
  by (simp add: sampleRunners_def okRunner_def failRunner_def)

lemma allSettled_sampleRunners:
  "allSettled (\<lambda>i. i) sampleRunners
     = [Inr (sampleResult Single_plain ''a''), Inl (JsError ''boom''),
        Inr (sampleResult Multi_same_model_roles ''c''), Inr (sampleResult Single_role ''d'')]"
  by (simp add: allSettled_def sampleRunners_def okRunner_def failRunner_def)

lemma less_4_cases: "(j::nat) < 4 \<longleftrightarrow> j = 0 \<or> j = 1 \<or> j = 2 \<or> j = 3"
  by auto

lemma runSingleCondition_id:
  "runSingleCondition callLlm cid clabel q sp prov mdl s = (Inr r, s') \<Longrightarrow> conditionId r = cid"
  by (auto simp: runSingleCondition_def split: prod.splits sum.splits)

lemma runDebateCondition_id:
  "runDebateCondition callLlm maxTok cid clabel q agents rounds s = (Inr r, s') \<Longrightarrow> conditionId r = cid"
  by (auto simp: runDebateCondition_def split: prod.splits sum.splits)

lemma conditionId_failed:
  "i < 4 \<Longrightarrow> conditionId (buildFailedConditionResult i e) = conditionIds ! i"
  by (auto simp: buildFailedConditionResult_def fallbackMappings_def conditionIds_def less_4_cases)

lemma length_conditionRunners: "length (conditionRunners env callLlm q) = 4"
  by (simp add: conditionRunners_def Let_def)

lemma conditionRunners_id:
  assumes "i < 4"
  shows "conditionId (resultOf i (fst ((conditionRunners env callLlm q ! i) s))) = conditionIds ! i"
proof -
  obtain out s' where r: "(conditionRunners env callLlm q ! i) s = (out, s')"
    by (cases \<open>(conditionRunners env callLlm q ! i) s\<close>)
  show ?thesis
  proof (cases out)
    case (Inl e)
    with r assms show ?thesis by (simp add: resultOf_def conditionId_failed)
  next
    case (Inr v)
    with r assms show ?thesis
      by (auto simp: resultOf_def conditionRunners_def Let_def conditionIds_def less_4_cases
          dest: runSingleCondition_id runDebateCondition_id)
  qed
qed

lemma settleSeq_nth:
  "i < length runners \<Longrightarrow> \<exists>s'. settleSeq runners s ! i = fst ((runners ! i) s')"
proof (induction runners arbitrary: i s)
  case Nil
  then show ?case by simp
next
  case (Cons run rest)
  show ?case
  proof (cases i)
    case 0
    then show ?thesis by auto
  next
    case (Suc j)
    with Cons.prems have "j < length rest" by simp
    from Cons.IH[OF this] Suc show ?thesis by simp
  qed
qed

lemma allSettled_nth:
  "i < length runners \<Longrightarrow> allSettled views runners ! i = fst ((runners ! i) (views i))"
  by (simp add: allSettled_def nth_enumerate_eq)

lemma conditionResults_ids:
  assumes "res = (if serial then fst (runConditionsSequentially (conditionRunners env callLlm q) s)
                  else runConditionsInParallel views (conditionRunners env callLlm q))"
  shows "map conditionId res = conditionIds"
proof -
  let ?rs = "conditionRunners env callLlm q"
  let ?outs = "if serial then settleSeq ?rs s else allSettled views ?rs"
  have len: "length ?outs = 4"
    by (simp add: length_settleSeq length_allSettled length_conditionRunners)
  have res: "res = map (\<lambda>(i, out). resultOf i out) (enumerate 0 ?outs)"
    using assms by (simp add: runConditionsSequentially_results runConditionsInParallel_results)
  have nth: "conditionId (res ! i) = conditionIds ! i" if i: "i < 4" for i
  proof -
    have "\<exists>s'. ?outs ! i = fst ((?rs ! i) s')"
      using i settleSeq_nth[of i ?rs s] allSettled_nth[of i ?rs views]
      by (auto simp: length_conditionRunners)
    then obtain s' where o: "?outs ! i = fst ((?rs ! i) s')" by blast
    have "res ! i = resultOf i (?outs ! i)"
      using res len i by (simp add: nth_enumerate_eq)
    then show ?thesis using o conditionRunners_id[OF i] by simp
  qed
  have "length res = 4" using res len by simp
  then show ?thesis
    using nth by (intro nth_equalityI) (simp_all add: conditionIds_def)
qed

section \<open>The shuffle is a bijection on the draws\<close>

lemma swapAt_nth_other: "k \<noteq> i \<Longrightarrow> k \<noteq> j \<Longrightarrow> swapAt i j xs ! k = xs ! k"
  by (simp add: swapAt_def)

lemma shuffleLoop_nth_above:
  "n < k \<Longrightarrow> \<forall>i \<in> {1..<Suc n}. rnd i \<le> i \<Longrightarrow> shuffleLoop rnd n xs ! k = xs ! k"
proof (induction n arbitrary: xs)
  case 0
  then show ?case by simp
next
  case (Suc n)
  have r: "rnd (Suc n) \<le> Suc n" using Suc.prems(2) by simp
  have "shuffleLoop rnd n (swapAt (Suc n) (rnd (Suc n)) xs) ! k = swapAt (Suc n) (rnd (Suc n)) xs ! k"
    using Suc.prems by (intro Suc.IH) simp_all
  also have "\<dots> = xs ! k"
    using Suc.prems(1) r by (intro swapAt_nth_other) simp_all
  finally show ?case by simp
qed

lemma swapAt_nth_top: "i < length xs \<Longrightarrow> j \<le> i \<Longrightarrow> swapAt i j xs ! i = xs ! j"
  by (auto simp: swapAt_def nth_list_update)

lemma distinct_swapAt:
  "i < length xs \<Longrightarrow> j < length xs \<Longrightarrow> distinct (swapAt i j xs) = distinct xs"
  using mset_swapAt[of i xs j] by (metis mset_eq_imp_distinct_iff)

lemma shuffleLoop_inj:
  assumes "distinct xs" and "n < length xs"
    and "\<forall>i \<in> {1..<Suc n}. d i \<le> i" and "\<forall>i \<in> {1..<Suc n}. d' i \<le> i"
    and "shuffleLoop d n xs = shuffleLoop d' n xs"
  shows "\<forall>i \<in> {1..<Suc n}. d i = d' i"
  using assms
proof (induction n arbitrary: xs)
  case 0
  then show ?case by simp
next
  case (Suc n)
  let ?a = "swapAt (Suc n) (d (Suc n)) xs" and ?b = "swapAt (Suc n) (d' (Suc n)) xs"
  have r: "d (Suc n) \<le> Suc n" "d' (Suc n) \<le> Suc n"
    using Suc.prems(3,4) by simp_all
  have ra: "\<forall>i \<in> {1..<Suc n}. d i \<le> i" and rb: "\<forall>i \<in> {1..<Suc n}. d' i \<le> i"
    using Suc.prems(3,4) by simp_all
  have "shuffleLoop d n ?a ! Suc n = ?a ! Suc n"
    using ra by (intro shuffleLoop_nth_above) simp_all
  moreover have "shuffleLoop d' n ?b ! Suc n = ?b ! Suc n"
    using rb by (intro shuffleLoop_nth_above) simp_all
  ultimately have "?a ! Suc n = ?b ! Suc n"
    using Suc.prems(5) by simp
  then have "xs ! d (Suc n) = xs ! d' (Suc n)"
    using Suc.prems(2) r by (simp add: swapAt_nth_top)
  then have top: "d (Suc n) = d' (Suc n)"
    using Suc.prems(1,2) r by (simp add: nth_eq_iff_index_eq)
  have da: "distinct ?a"
    using Suc.prems(1,2) r by (simp add: distinct_swapAt)
  have eq: "shuffleLoop d n ?a = shuffleLoop d' n ?a"
    using Suc.prems(5) top by simp
  have "\<forall>i \<in> {1..<Suc n}. d i = d' i"
    using da Suc.prems(2) ra rb eq by (intro Suc.IH) (simp_all add: length_swapAt)
  with top show ?case
    by (auto simp: less_Suc_eq)
qed

lemma card_drawSpace: "card drawSpace = 24"
  by (simp add: drawSpace_def)

lemma draws3_in_range: "t \<in> drawSpace \<Longrightarrow> \<forall>i \<in> {1..<Suc 3}. draws3 t i \<le> i"
  by (auto simp: drawSpace_def draws3_def)

lemma draws3_inj:
  "t \<in> drawSpace \<Longrightarrow> t' \<in> drawSpace \<Longrightarrow> \<forall>i \<in> {1..<Suc 3}. draws3 t i = draws3 t' i \<Longrightarrow> t = t'"
proof -
  assume a: "t \<in> drawSpace" "t' \<in> drawSpace" and e: "\<forall>i \<in> {1..<Suc 3}. draws3 t i = draws3 t' i"
  obtain j3 j2 j1 where t: "t = (j3, j2, j1)" by (cases t) auto
  obtain k3 k2 k1 where t': "t' = (k3, k2, k1)" by (cases t') auto
  from e have "draws3 t 3 = draws3 t' 3" "draws3 t 2 = draws3 t' 2" "draws3 t 1 = draws3 t' 1"
    by simp_all
  then show "t = t'" by (simp add: t t' draws3_def)
qed

lemma card_orderings:
  assumes "distinct xs" and "length xs = 4"
  shows "card {ys. mset ys = mset xs} = 24"
proof -
  have c: "card (set xs) = 4" using assms by (simp add: distinct_card)
  have "{ys. mset ys = mset xs} = {ys. length ys = 4 \<and> distinct ys \<and> set ys \<subseteq> set xs}"
  proof (intro set_eqI iffI; clarify)
    fix ys assume "mset ys = mset xs"
    then show "length ys = 4 \<and> distinct ys \<and> set ys \<subseteq> set xs"
      using assms by (metis mset_eq_length mset_eq_imp_distinct_iff mset_eq_setD subset_refl)
  next
    fix ys assume l: "length ys = 4" and d: "distinct ys" and s: "set ys \<subseteq> set xs"
    have "card (set ys) = 4" using l d by (simp add: distinct_card)
    with s c have "set ys = set xs" by (simp add: card_subset_eq)
    then show "mset ys = mset xs"
      using d assms(1) by (simp add: set_eq_iff_mset_eq_distinct)
  qed
  moreover have "card {ys. length ys = 4 \<and> distinct ys \<and> set ys \<subseteq> set xs} = \<Prod>{card (set xs) - 4 + 1 .. card (set xs)}"
    using c by (intro card_lists_distinct_length_eq) simp_all
  moreover have "\<Prod>{card (set xs) - 4 + 1 .. card (set xs)} = (24::nat)"
  proof -
    have "{1..4::nat} = {1, 2, 3, 4}" by auto
    then show ?thesis by (simp add: c)
  qed
  ultimately show ?thesis by simp
qed

section \<open>Properties of the Gemini adapter\<close>









section \<open>The record of the calls of a debate\<close>

lemma agentsLoop_logged:
  assumes "agentsLoop (logged c) maxTok q r R P ags h cs ls = (res, ls')"
  shows "\<exists>es. fst ls' = fst ls @ es \<and> length es \<le> length ags
     \<and> (\<forall>j < length es. callFor (ags ! j) (buildRoundPrompt q r R (ags ! j) P) (es ! j))
     \<and> (\<forall>h' cs'. res = Inr (h', cs') \<longrightarrow>
            length es = length ags \<and> cs' = cs @ roundTurns ags r es
            \<and> (\<forall>e \<in> set es. \<not> isl (snd e)))"
  using assms
proof (induction ags arbitrary: h cs ls)
  case Nil
  then show ?case by (auto simp: roundTurns_def)
next
  case (Cons a ags)
  show ?case
  proof (cases \<open>h (agent_id a)\<close>)
    case None
    with Cons.prems have "ls' = ls" "res = Inl (JsError (''Missing chat history for agent '' @ agent_id a))"
      by (simp_all add: Let_def)
    then show ?thesis by (intro exI[of _ "[]"]) simp
  next
    case (Some history)
    let ?h1 = "history @ [\<lparr> role = User, content = buildRoundPrompt q r R a P \<rparr>]"
    let ?inp = "\<lparr> provider = agent_provider a, model = agent_model a,
                  messages = ?h1, temperature = Some (1 / 2), maxTokens = Some maxTok \<rparr>"
    obtain out s1 where c: "c ?inp (snd ls) = (out, s1)" by (cases \<open>c ?inp (snd ls)\<close>)
    let ?ls1 = "(fst ls @ [(?inp, out)], s1)"
    have lg: "logged c ?inp ls = (out, ?ls1)"
      using c by (simp add: logged_def)
    have p0: "callFor a (buildRoundPrompt q r R a P) (?inp, out)"
      by (cases history) (simp_all add: callFor_def promptOf_def)
    show ?thesis
    proof (cases out)
      case (Inl e)
      with Cons.prems Some lg have "ls' = ?ls1" "res = Inl e"
        by (simp_all add: Let_def)
      then show ?thesis
        using p0 by (intro exI[of _ "[(?inp, out)]"]) simp
    next
      case (Inr reply)
      let ?h2 = "h(agent_id a \<mapsto> ?h1 @ [\<lparr> role = Assistant, content = reply \<rparr>])"
      from Cons.prems Some lg Inr
      have rest: "agentsLoop (logged c) maxTok q r R P ags ?h2 (cs @ [mkTurn r a reply]) ?ls1 = (res, ls')"
        by (simp add: Let_def)
      from Cons.IH[OF rest] obtain es where
        e1: "fst ls' = fst ?ls1 @ es" and e2: "length es \<le> length ags"
        and e3: "\<forall>j < length es. callFor (ags ! j) (buildRoundPrompt q r R (ags ! j) P) (es ! j)"
        and e4: "\<forall>h' cs'. res = Inr (h', cs') \<longrightarrow>
            length es = length ags \<and> cs' = (cs @ [mkTurn r a reply]) @ roundTurns ags r es
            \<and> (\<forall>e \<in> set es. \<not> isl (snd e))"
        by blast
      have a1: "fst ls' = fst ls @ ((?inp, out) # es)" using e1 by simp
      have a2: "length ((?inp, out) # es) \<le> length (a # ags)" using e2 by simp
      have a3: "\<forall>j < length ((?inp, out) # es).
            callFor ((a # ags) ! j) (buildRoundPrompt q r R ((a # ags) ! j) P) (((?inp, out) # es) ! j)"
        using e3 p0 by (auto simp: nth_Cons split: nat.splits)
      have a4: "\<forall>h' cs'. res = Inr (h', cs') \<longrightarrow>
            length ((?inp, out) # es) = length (a # ags)
            \<and> cs' = cs @ roundTurns (a # ags) r ((?inp, out) # es)
            \<and> (\<forall>e \<in> set ((?inp, out) # es). \<not> isl (snd e))"
        using e4 Inr by (auto simp: roundTurns_def replyOf_def)
      show ?thesis
        using a1 a2 a3 a4 by blast
    qed
  qed
qed

lemma roundTurns_round: "t \<in> set (roundTurns agents r es) \<Longrightarrow> turn_round t = Num r"
  by (auto simp: roundTurns_def mkTurn_def)

lemma roundsLoop_logged:
  assumes "roundsLoop (logged c) maxTok q agents R r h T ls = (res, ls')"
    and "filter (\<lambda>t. turn_round t = Num (r - 1)) T = prev"
    and "\<forall>t \<in> set T. \<exists>k < r. turn_round t = Num k"
  shows "\<exists>chunks. fst ls' = fst ls @ concat chunks \<and> chunksOk q R agents r prev chunks
     \<and> (\<forall>h' T'. res = Inr (h', T') \<longrightarrow>
          length chunks = (case R of Num n \<Rightarrow> nat (n + 1 - r) | NaN \<Rightarrow> 0)
          \<and> (\<forall>es \<in> set chunks. length es = length agents)
          \<and> T' = T @ turnsOf agents r chunks)"
  using assms
proof (induction "logged c" maxTok q agents R r h T ls arbitrary: prev rule: roundsLoop.induct)
  case (1 maxTok q agents R r h T ls)
  have "lessEq (Num r) R \<or> \<not> lessEq (Num r) R" by simp
  then show ?case
  proof (elim disjE)
    assume gt: "\<not> lessEq (Num r) R"
    with "1.prems"(1) have "ls' = ls" "res = Inr (h, T)"
      by (simp_all add: roundsLoop.simps[of _ _ _ _ R r])
    moreover have "(case R of Num n \<Rightarrow> nat (n + 1 - r) | NaN \<Rightarrow> 0) = 0"
      using gt by (cases R) simp_all
    ultimately show ?thesis by (intro exI[of _ "[]"]) simp
  next
    assume le: "lessEq (Num r) R"
    then obtain n where R: "R = Num n" and rn: "r \<le> n"
      by (cases R) simp_all
    obtain ires ls1 where inner:
      "agentsLoop (logged c) maxTok q r R (filter (\<lambda>turn. turn_round turn = Num (r - 1)) T) agents h [] ls
         = (ires, ls1)"
      by (cases \<open>agentsLoop (logged c) maxTok q r R (filter (\<lambda>turn. turn_round turn = Num (r - 1)) T) agents h [] ls\<close>)
    from agentsLoop_logged[OF inner] "1.prems"(2) obtain es where
      e1: "fst ls1 = fst ls @ es" and e2: "length es \<le> length agents"
      and e3: "\<forall>j < length es. callFor (agents ! j) (buildRoundPrompt q r R (agents ! j) prev) (es ! j)"
      and e4: "\<forall>h' cs'. ires = Inr (h', cs') \<longrightarrow>
            length es = length agents \<and> cs' = [] @ roundTurns agents r es
            \<and> (\<forall>e \<in> set es. \<not> isl (snd e))"
      by blast
    show ?thesis
    proof (cases ires)
      case (Inl e)
      with "1.prems"(1) le inner have "ls' = ls1" "res = Inl e"
        by (simp_all add: roundsLoop.simps[of _ _ _ _ R r] Let_def)
      then show ?thesis
        using e1 e2 e3 by (intro exI[of _ "[es]"]) simp
    next
      case (Inr hc)
      obtain h1 cs where hc: "hc = (h1, cs)" by (cases hc)
      from e4 Inr hc have l: "length es = length agents" and cs: "cs = roundTurns agents r es"
        and ok: "\<forall>e \<in> set es. \<not> isl (snd e)" by simp_all
      from "1.prems"(1) le inner Inr hc
      have rec: "roundsLoop (logged c) maxTok q agents R (r + 1) h1 (T @ cs) ls1 = (res, ls')"
        by (simp add: roundsLoop.simps[of _ _ _ _ R r] Let_def)
      have f: "filter (\<lambda>t. turn_round t = Num (r + 1 - 1)) (T @ cs) = roundTurns agents r es"
      proof -
        have "filter (\<lambda>t. turn_round t = Num r) T = []"
          using "1.prems"(3) by (auto simp: filter_empty_conv)
        moreover have "filter (\<lambda>t. turn_round t = Num r) cs = cs"
          using cs by (auto simp: filter_id_conv dest: roundTurns_round)
        ultimately show ?thesis using cs by simp
      qed
      have b: "\<forall>t \<in> set (T @ cs). \<exists>k < r + 1. turn_round t = Num k"
      proof
        fix t assume "t \<in> set (T @ cs)"
        then consider "t \<in> set T" | "t \<in> set cs" by auto
        then show "\<exists>k < r + 1. turn_round t = Num k"
        proof cases
          case 1
          with "1.prems"(3) obtain k where "k < r" "turn_round t = Num k" by blast
          then show ?thesis by (intro exI[of _ k]) simp
        next
          case 2
          with cs have "turn_round t = Num r" by (auto dest: roundTurns_round)
          then show ?thesis by (intro exI[of _ r]) simp
        qed
      qed
      from "1.hyps"[OF le refl inner[symmetric] _ _ rec f b] Inr hc
      obtain chunks where c1: "fst ls' = fst ls1 @ concat chunks"
        and c2: "chunksOk q R agents (r + 1) (roundTurns agents r es) chunks"
        and c3: "\<forall>h' T'. res = Inr (h', T') \<longrightarrow>
          length chunks = (case R of Num n \<Rightarrow> nat (n + 1 - (r + 1)) | NaN \<Rightarrow> 0)
          \<and> (\<forall>es \<in> set chunks. length es = length agents)
          \<and> T' = (T @ cs) @ turnsOf agents (r + 1) chunks"
        by auto
      have d1: "fst ls' = fst ls @ concat (es # chunks)"
        using c1 e1 by simp
      have d2: "chunksOk q R agents r prev (es # chunks)"
        using c2 e2 e3 l ok by simp
      have d3: "\<forall>h' T'. res = Inr (h', T') \<longrightarrow>
          length (es # chunks) = (case R of Num n \<Rightarrow> nat (n + 1 - r) | NaN \<Rightarrow> 0)
          \<and> (\<forall>es \<in> set (es # chunks). length es = length agents)
          \<and> T' = T @ turnsOf agents r (es # chunks)"
        using c3 l cs R rn by auto
      show ?thesis
        using d1 d2 d3 by (intro exI[of _ "es # chunks"] conjI)
    qed
  qed
qed

lemma chunksOk_nth:
  assumes "chunksOk q R agents r prev chunks" and "i < length chunks" and "j < length (chunks ! i)"
  shows "j < length agents
     \<and> callFor (agents ! j)
         (buildRoundPrompt q (r + int i) R (agents ! j)
            (if i = 0 then prev else roundTurns agents (r + int i - 1) (chunks ! (i - 1))))
         (chunks ! i ! j)
     \<and> (0 < i \<longrightarrow> length (chunks ! (i - 1)) = length agents
                  \<and> (\<forall>e \<in> set (chunks ! (i - 1)). \<not> isl (snd e)))"
  using assms
proof (induction chunks arbitrary: r prev i)
  case Nil
  then show ?case by simp
next
  case (Cons es rest)
  show ?case
  proof (cases i)
    case 0
    with Cons.prems show ?thesis by simp
  next
    case (Suc k)
    with Cons.prems have k: "k < length rest" and j: "j < length (rest ! k)"
      and ok: "chunksOk q R agents (r + 1) (roundTurns agents r es) rest"
      and full: "length es = length agents" "\<forall>e \<in> set es. \<not> isl (snd e)"
      by auto
    from Cons.IH[OF ok k j]
    have i1: "j < length agents"
      and i2: "callFor (agents ! j)
         (buildRoundPrompt q (r + 1 + int k) R (agents ! j)
            (if k = 0 then roundTurns agents r es
             else roundTurns agents (r + 1 + int k - 1) (rest ! (k - 1))))
         (rest ! k ! j)"
      and i3: "0 < k \<longrightarrow> length (rest ! (k - 1)) = length agents
                  \<and> (\<forall>e \<in> set (rest ! (k - 1)). \<not> isl (snd e))"
      by simp_all
    have r1: "r + int (Suc k) = r + 1 + int k" by simp
    show ?thesis
    proof (cases k)
      case 0
      with Suc i1 i2 full show ?thesis by simp
    next
      case (Suc m)
      with \<open>i = Suc k\<close> i1 i2 i3 show ?thesis by (simp add: r1 add.commute add.left_commute)
    qed
  qed
qed

lemma chunksOk_le:
  "chunksOk q R agents r prev chunks \<Longrightarrow> \<forall>es \<in> set chunks. length es \<le> length agents"
  by (induction chunks arbitrary: r prev) auto

lemma chunksOk_index:
  assumes "chunksOk q R agents r prev chunks" and "n < length (concat chunks)"
  shows "n div length agents < length chunks
     \<and> n mod length agents < length (chunks ! (n div length agents))
     \<and> concat chunks ! n = chunks ! (n div length agents) ! (n mod length agents)"
  using assms
proof (induction chunks arbitrary: r prev n)
  case Nil
  then show ?case by simp
next
  case (Cons es rest)
  let ?A = "length agents"
  from Cons.prems(1) have le: "length es \<le> ?A" by simp
  show ?case
  proof (cases \<open>n < length es\<close>)
    case True
    with le have "n div ?A = 0" "n mod ?A = n" by simp_all
    with True show ?thesis by (simp add: nth_append)
  next
    case False
    with Cons.prems(2) have ne: "rest \<noteq> []" by auto
    with Cons.prems(1) have full: "length es = ?A"
      and ok: "chunksOk q R agents (r + 1) (roundTurns agents r es) rest"
      by simp_all
    from False full have ge: "?A \<le> n" by simp
    from Cons.prems(2) full ge have m: "n - ?A < length (concat rest)" by simp
    have pos: "0 < ?A"
    proof (rule ccontr)
      assume "\<not> 0 < ?A"
      then have z: "?A = 0" by simp
      have "\<forall>es' \<in> set rest. length es' \<le> ?A"
        using ok by (rule chunksOk_le)
      with z have "\<forall>es' \<in> set rest. es' = []" by simp
      then have "concat rest = []" by (induction rest) simp_all
      with m show False by simp
    qed
    have dv: "n div ?A = Suc ((n - ?A) div ?A)"
      using pos ge by (rule le_div_geq)
    have md: "n mod ?A = (n - ?A) mod ?A"
      using ge by (rule le_mod_geq)
    from Cons.IH[OF ok m] show ?thesis
      using full ge by (simp add: dv md nth_append)
  qed
qed

lemma turnsOf_nth:
  assumes "\<forall>es \<in> set chunks. length es = length agents"
    and "i < length chunks" and "k < length agents"
  shows "i * length agents + k < length (turnsOf agents r chunks)
     \<and> turnsOf agents r chunks ! (i * length agents + k)
         = mkTurn (r + int i) (agents ! k) (replyOf (chunks ! i ! k))"
  using assms
proof (induction chunks arbitrary: r i)
  case Nil
  then show ?case by simp
next
  case (Cons es rest)
  from Cons.prems(1) have l: "length (roundTurns agents r es) = length agents"
    by (simp add: roundTurns_def)
  show ?case
  proof (cases i)
    case 0
    with Cons.prems l show ?thesis
      by (simp add: nth_append roundTurns_def)
  next
    case (Suc i')
    with Cons.prems have "\<forall>es \<in> set rest. length es = length agents" "i' < length rest"
      by simp_all
    from Cons.IH[OF this Cons.prems(3), of "r + 1"] Suc l show ?thesis
      by (simp add: nth_append add.commute add.left_commute)
  qed
qed

lemma length_concat_full:
  "\<forall>es \<in> set chunks. length es = A \<Longrightarrow> length (concat chunks) = length chunks * A"
  by (induction chunks) simp_all

lemma runDebate_logged:
  "\<exists>chunks rest. callsOf c maxTok q agents R s = concat chunks @ rest
     \<and> length rest \<le> 1 \<and> chunksOk q R agents 1 [] chunks
     \<and> (rest \<noteq> [] \<longrightarrow> length (concat chunks) = roundCount R * length agents)
     \<and> (\<forall>res. fst (runDebate (logged c) maxTok q agents R ([], s)) = Inr res \<longrightarrow>
          (\<forall>es \<in> set chunks. length es = length agents)
          \<and> butlast (debate_transcript res) = turnsOf agents 1 chunks)"
proof -
  obtain res ls1 where loop:
    "roundsLoop (logged c) maxTok q agents R 1 (initHistories agents) [] ([], s) = (res, ls1)"
    by (cases \<open>roundsLoop (logged c) maxTok q agents R 1 (initHistories agents) [] ([], s)\<close>)
  from roundsLoop_logged[OF loop, of "[]"] obtain chunks where
    c1: "fst ls1 = concat chunks" and c2: "chunksOk q R agents 1 [] chunks"
    and c3: "\<forall>h' T'. res = Inr (h', T') \<longrightarrow>
          length chunks = (case R of Num n \<Rightarrow> nat (n + 1 - 1) | NaN \<Rightarrow> 0)
          \<and> (\<forall>es \<in> set chunks. length es = length agents)
          \<and> T' = [] @ turnsOf agents 1 chunks"
    by auto
  have full: "length (concat chunks) = roundCount R * length agents
        \<and> (\<forall>es \<in> set chunks. length es = length agents) \<and> T' = turnsOf agents 1 chunks"
    if "res = Inr (h', T')" for h' T'
  proof -
    from c3 that have a: "length chunks = (case R of Num n \<Rightarrow> nat (n + 1 - 1) | NaN \<Rightarrow> 0)"
      and b: "\<forall>es \<in> set chunks. length es = length agents" and t: "T' = turnsOf agents 1 chunks"
      by simp_all
    from a have "length chunks = roundCount R"
      by (cases R) (simp_all add: roundCount_def)
    with length_concat_full[OF b] b t show ?thesis by simp
  qed
  have "\<exists>rest. callsOf c maxTok q agents R s = fst ls1 @ rest \<and> length rest \<le> 1
     \<and> (rest \<noteq> [] \<longrightarrow> length (concat chunks) = roundCount R * length agents)
     \<and> (\<forall>r'. fst (runDebate (logged c) maxTok q agents R ([], s)) = Inr r' \<longrightarrow>
          (\<forall>es \<in> set chunks. length es = length agents)
          \<and> butlast (debate_transcript r') = turnsOf agents 1 chunks)"
  proof (cases res)
    case (Inl e)
    with loop show ?thesis by (simp add: runDebate_def callsOf_def)
  next
    case (Inr ht)
    obtain h T where ht: "ht = (h, T)" by (cases ht)
    note f = full[OF Inr[unfolded ht]]
    show ?thesis
    proof (cases \<open>findModerator agents\<close>)
      case None
      with loop Inr ht show ?thesis by (simp add: runDebate_def callsOf_def)
    next
      case (Some m)
      show ?thesis
      proof (cases \<open>h (agent_id m)\<close>)
        case None
        with loop Inr ht Some show ?thesis by (simp add: runDebate_def callsOf_def)
      next
        case (Some mh)
        let ?inp = "\<lparr> provider = agent_provider m, model = agent_model m,
                      messages = mh @ [\<lparr> role = User, content = buildModeratorPrompt q T R \<rparr>],
                      temperature = Some (1 / 5), maxTokens = Some (Num 950) \<rparr>"
        obtain out s2 where c: "c ?inp (snd ls1) = (out, s2)" by (cases \<open>c ?inp (snd ls1)\<close>)
        have lg: "logged c ?inp ls1 = (out, (fst ls1 @ [(?inp, out)], s2))"
          using c by (simp add: logged_def)
        from loop Inr ht \<open>findModerator agents = Some m\<close> Some lg
        have run: "runDebate (logged c) maxTok q agents R ([], s)
            = (case out of Inl e \<Rightarrow> Inl e
               | Inr a \<Rightarrow> Inr \<lparr> debate_answer = a,
                                  debate_transcript = T @ [synthesisTurn R m a] \<rparr>,
               (fst ls1 @ [(?inp, out)], s2))"
          by (cases out) (simp_all add: runDebate_def)
        have "callsOf c maxTok q agents R s = fst ls1 @ [(?inp, out)]"
          unfolding callsOf_def run by simp
        moreover have "\<forall>r'. fst (runDebate (logged c) maxTok q agents R ([], s)) = Inr r' \<longrightarrow>
            butlast (debate_transcript r') = turnsOf agents 1 chunks"
          unfolding run using f by (cases out) auto
        ultimately show ?thesis using f by (intro exI[of _ "[(?inp, out)]"]) simp
      qed
    qed
  qed
  with c1 c2 show ?thesis by auto
qed

lemma agentsLoop_logged_sim:
  "agentsLoop (logged c) maxTok q r R P ags h cs ls = (res, ls')
   \<Longrightarrow> agentsLoop c maxTok q r R P ags h cs (snd ls) = (res, snd ls')"
proof (induction ags arbitrary: h cs ls)
  case Nil
  then show ?case by auto
next
  case (Cons a ags)
  show ?case
  proof (cases \<open>h (agent_id a)\<close>)
    case None
    with Cons.prems show ?thesis by (auto simp: Let_def)
  next
    case (Some history)
    let ?inp = "\<lparr> provider = agent_provider a, model = agent_model a,
                  messages = history @ [\<lparr> role = User, content = buildRoundPrompt q r R a P \<rparr>],
                  temperature = Some (1 / 2), maxTokens = Some maxTok \<rparr>"
    obtain out s1 where c: "c ?inp (snd ls) = (out, s1)" by (cases \<open>c ?inp (snd ls)\<close>)
    have lg: "logged c ?inp ls = (out, (fst ls @ [(?inp, out)], s1))"
      using c by (simp add: logged_def)
    show ?thesis
    proof (cases out)
      case (Inl e)
      with Cons.prems Some lg c show ?thesis by (auto simp: Let_def)
    next
      case (Inr reply)
      let ?h2 = "h(agent_id a \<mapsto> (history @ [\<lparr> role = User, content = buildRoundPrompt q r R a P \<rparr>])
                   @ [\<lparr> role = Assistant, content = reply \<rparr>])"
      from Cons.prems Some lg Inr
      have rest: "agentsLoop (logged c) maxTok q r R P ags ?h2
              (cs @ [mkTurn r a reply]) (fst ls @ [(?inp, out)], s1) = (res, ls')"
        by (simp add: Let_def)
      have ih: "agentsLoop c maxTok q r R P ags ?h2 (cs @ [mkTurn r a reply]) s1 = (res, snd ls')"
        using Cons.IH[OF rest] unfolding snd_conv .
      have step: "agentsLoop c maxTok q r R P (a # ags) h cs (snd ls)
          = agentsLoop c maxTok q r R P ags ?h2 (cs @ [mkTurn r a reply]) s1"
        using Some c Inr by (simp add: Let_def)
      show ?thesis unfolding step by (rule ih)
    qed
  qed
qed

lemma roundsLoop_logged_sim:
  "roundsLoop (logged c) maxTok q agents R r h T ls = (res, ls')
   \<Longrightarrow> roundsLoop c maxTok q agents R r h T (snd ls) = (res, snd ls')"
proof (induction "logged c" maxTok q agents R r h T ls rule: roundsLoop.induct)
  case (1 maxTok q agents R r h T ls)
  have "lessEq (Num r) R \<or> \<not> lessEq (Num r) R" by simp
  then show ?case
  proof (elim disjE)
    assume gt: "\<not> lessEq (Num r) R"
    with "1.prems" show ?thesis
      by (simp add: roundsLoop.simps[of _ _ _ _ R r])
  next
    assume le: "lessEq (Num r) R"
    obtain ires ls1 where inner:
      "agentsLoop (logged c) maxTok q r R (filter (\<lambda>turn. turn_round turn = Num (r - 1)) T) agents h [] ls
         = (ires, ls1)"
      by (cases \<open>agentsLoop (logged c) maxTok q r R (filter (\<lambda>turn. turn_round turn = Num (r - 1)) T) agents h [] ls\<close>)
    note sim = agentsLoop_logged_sim[OF inner]
    show ?thesis
    proof (cases ires)
      case (Inl e)
      with "1.prems" le inner have "res = Inl e" "ls' = ls1"
        by (simp_all add: roundsLoop.simps[of _ _ _ _ R r] Let_def)
      with le sim Inl show ?thesis
        by (simp add: roundsLoop.simps[of c _ _ _ R r] Let_def)
    next
      case (Inr hc)
      obtain h1 cs where hc: "hc = (h1, cs)" by (cases hc)
      from "1.prems" le inner Inr hc
      have rec: "roundsLoop (logged c) maxTok q agents R (r + 1) h1 (T @ cs) ls1 = (res, ls')"
        by (simp add: roundsLoop.simps[of _ _ _ _ R r] Let_def)
      from "1.hyps"[OF le refl inner[symmetric] _ _ rec] Inr hc
      have "roundsLoop c maxTok q agents R (r + 1) h1 (T @ cs) (snd ls1) = (res, snd ls')"
        by simp
      with le sim Inr hc show ?thesis
        by (simp add: roundsLoop.simps[of c _ _ _ R r] Let_def)
    qed
  qed
qed

lemma runDebate_logged_sim:
  "fst (runDebate (logged c) maxTok q agents R ls) = fst (runDebate c maxTok q agents R (snd ls))
   \<and> snd (snd (runDebate (logged c) maxTok q agents R ls)) = snd (runDebate c maxTok q agents R (snd ls))"
proof -
  obtain res ls1 where loop:
    "roundsLoop (logged c) maxTok q agents R 1 (initHistories agents) [] ls = (res, ls1)"
    by (cases \<open>roundsLoop (logged c) maxTok q agents R 1 (initHistories agents) [] ls\<close>)
  note sim = roundsLoop_logged_sim[OF loop]
  show ?thesis
  proof (cases res)
    case (Inl e)
    with loop sim show ?thesis by (simp add: runDebate_def)
  next
    case (Inr ht)
    obtain h T where ht: "ht = (h, T)" by (cases ht)
    show ?thesis
    proof (cases \<open>findModerator agents\<close>)
      case None
      with loop sim Inr ht show ?thesis by (simp add: runDebate_def)
    next
      case (Some m)
      show ?thesis
      proof (cases \<open>h (agent_id m)\<close>)
        case None
        with loop sim Inr ht Some show ?thesis by (simp add: runDebate_def)
      next
        case (Some mh)
        let ?inp = "\<lparr> provider = agent_provider m, model = agent_model m,
                      messages = mh @ [\<lparr> role = User, content = buildModeratorPrompt q T R \<rparr>],
                      temperature = Some (1 / 5), maxTokens = Some (Num 950) \<rparr>"
        obtain out s2 where c: "c ?inp (snd ls1) = (out, s2)" by (cases \<open>c ?inp (snd ls1)\<close>)
        have lg: "logged c ?inp ls1 = (out, (fst ls1 @ [(?inp, out)], s2))"
          using c by (simp add: logged_def)
        from loop sim Inr ht \<open>findModerator agents = Some m\<close> Some lg c
        show ?thesis by (cases out) (simp_all add: runDebate_def)
      qed
    qed
  qed
qed

lemma clampText_280: "clampText c 280 = truncated 280 c"
  by (simp add: clampText_def truncated_def slice0_def)

lemma peerLine_mkTurn: "peerLine (mkTurn r a c) = peerEntry a c"
  by (simp add: peerLine_def mkTurn_def peerEntry_def clampText_280)

lemma roundTurns_upt:
  "length es = length agents \<Longrightarrow>
   roundTurns agents r es = map (\<lambda>k. mkTurn r (agents ! k) (replyOf (es ! k))) [0..<length agents]"
  by (intro nth_equalityI) (simp_all add: roundTurns_def)

lemma peers_entries:
  assumes "length es = length agents"
  shows "map peerLine (filter (\<lambda>t. agentId t \<noteq> self) (roundTurns agents r es))
     = map (\<lambda>k. peerEntry (agents ! k) (replyOf (es ! k)))
         (filter (\<lambda>k. agent_id (agents ! k) \<noteq> self) [0..<length agents])"
proof -
  have a: "(\<lambda>t. agentId t \<noteq> self) \<circ> (\<lambda>k. mkTurn r (agents ! k) (replyOf (es ! k)))
      = (\<lambda>k. agent_id (agents ! k) \<noteq> self)"
    by (auto simp: mkTurn_def)
  show ?thesis
    unfolding roundTurns_upt[OF assms] filter_map a
    by (simp add: peerLine_mkTurn comp_def)
qed

lemma buildRoundPrompt_entries:
  assumes "length es = length agents" and "r \<noteq> 1"
    and "entries = map (\<lambda>k. peerEntry (agents ! k) (replyOf (es ! k)))
         (filter (\<lambda>k. agent_id (agents ! k) \<noteq> agent_id X) [0..<length agents])"
  shows "buildRoundPrompt q r R X (roundTurns agents r' es)
     = join nl
         [''Question: '' @ q,
          ''Round '' @ showInt r @ '' of '' @ showNumber R,
          '''',
          ''Peer updates from the previous round:'',
          (if entries = [] then ''- No prior peer statements available.'' else join nl entries),
          '''',
          ''Task:'',
          ''- Critique at least one peer claim.'',
          ''- Defend your current answer or concede to a stronger answer.'',
          ''- Ask up to 2 pointed questions only if needed.'',
          ''- End with an updated confidence score from 0-100.'',
          '''',
          ''Format:'',
          ''Current answer:'',
          ''Why this is stronger (or concession):'',
          ''Questions for peers:'',
          ''Confidence:'']"
proof -
  let ?peers = "filter (\<lambda>t. agentId t \<noteq> agent_id X) (roundTurns agents r' es)"
  have m: "map peerLine ?peers = entries"
    unfolding assms(3) using assms(1) by (rule peers_entries)
  then have e: "(length ?peers = 0) = (entries = [])"
    by (metis length_0_conv map_is_Nil_conv)
  have f: "formatPeerContext (roundTurns agents r' es) (agent_id X)
      = (if entries = [] then ''- No prior peer statements available.'' else join nl entries)"
    unfolding formatPeerContext_def Let_def e m ..
  show ?thesis
    using assms(2) unfolding buildRoundPrompt_def Let_def f roundHeader_def by simp
qed

section \<open>Properties of the request queue\<close>

lemma chainInv_initial: "chainInv initialQueue"
  by (simp add: chainInv_def initialQueue_def)

lemma in_remove_nth: "x \<in> set xs \<Longrightarrow> i < length xs \<Longrightarrow> xs ! i \<noteq> x \<Longrightarrow> x \<in> set (remove_nth i xs)"
proof -
  assume a: "x \<in> set xs" "i < length xs" "xs ! i \<noteq> x"
  from a(1) obtain j where j: "j < length xs" "xs ! j = x"
    by (auto simp: in_set_conv_nth)
  with a(3) have "j \<noteq> i" by auto
  then have "j < i \<or> i < j" by arith
  then show ?thesis
  proof (elim disjE)
    assume "j < i"
    then have "take i xs ! j = x" "j < length (take i xs)"
      using j a(2) by simp_all
    then have "x \<in> set (take i xs)" by (metis nth_mem)
    then show ?thesis by (simp add: remove_nth_def)
  next
    assume "i < j"
    then have "drop (Suc i) xs ! (j - Suc i) = x" "j - Suc i < length (drop (Suc i) xs)"
      using j by simp_all
    then have "x \<in> set (drop (Suc i) xs)" by (metis nth_mem)
    then show ?thesis by (simp add: remove_nth_def)
  qed
qed

lemma set_remove_nth_subset: "set (remove_nth i xs) \<subseteq> set xs"
  by (auto simp: remove_nth_def dest: in_set_takeD in_set_dropD)

lemma queueBefore_neq [simp]: "queueBefore k \<noteq> Result j" "queueBefore k \<noteq> Run j"
  by (cases k; simp)+

lemma queueBefore_inj [simp]: "queueBefore k = queueBefore j \<longleftrightarrow> k = j"
  by (cases k; cases j; simp)

lemma queueBefore_Tail [simp]: "queueBefore k = Tail j \<longleftrightarrow> k = Suc j"
  by (cases k; auto)

lemma chainInv_Settle:
  assumes "chainInv st" and "step (Settle task ok) st = Some st'"
  shows "chainInv st'"
proof -
  from assms(2) have en: "task \<in> set (started st)" "status st (Result task) = Pending"
    and st': "st' = st\<lparr> status := (status st)(Result task := (if ok then Fulfilled else Rejected)) \<rparr>"
    by (auto split: if_splits)
  show ?thesis
    using assms(1) en unfolding chainInv_def st'
    by (auto split: if_splits)
qed

lemma chainInv_Enqueue:
  assumes "chainInv st" and "step Enqueue st = Some st'"
  shows "chainInv st'"
proof -
  from assms(2) have st': "st' = st\<lparr> thens := thens st @ [(geminiQueue st, CallTask (ntasks st), Run (ntasks st)),
                                                     (Run (ntasks st), ReturnUndefined, Tail (ntasks st))],
                                 geminiQueue := Tail (ntasks st), ntasks := Suc (ntasks st) \<rparr>"
    by (simp add: callGemini_def enqueueGeminiWork_def Let_def)
  have g: "geminiQueue st = queueBefore (ntasks st)"
    using assms(1) by (simp add: chainInv_def)
  show ?thesis
    using assms(1) unfolding chainInv_def st' g
    by (auto simp: less_Suc_eq)
qed

lemma remove_nth_keeps:
  "i < length xs \<Longrightarrow> y \<in> set xs \<Longrightarrow> y \<noteq> xs ! i \<Longrightarrow> y \<in> set (remove_nth i xs)"
  using in_remove_nth [of y xs i] by auto

lemma chainInvI:
  assumes "geminiQueue st = queueBefore (ntasks st)"
    and "status st Initial = Fulfilled"
    and "\<And>x. x \<in> set (thens st) \<Longrightarrow>
            (\<exists>k < ntasks st. x = (queueBefore k, CallTask k, Run k))
          \<or> (\<exists>k < ntasks st. x = (Run k, ReturnUndefined, Tail k))"
    and "\<And>x. x \<in> set (adopts st) \<Longrightarrow> \<exists>k < ntasks st. x = (Result k, Run k)"
    and "\<And>k. k \<in> set (started st) \<Longrightarrow> k < ntasks st \<and> status st (queueBefore k) \<noteq> Pending"
    and "\<And>k. status st (Result k) \<noteq> Pending \<Longrightarrow> k \<in> set (started st)"
    and "\<And>k. status st (Run k) \<noteq> Pending \<Longrightarrow> status st (Result k) \<noteq> Pending"
    and "\<And>k. status st (Tail k) \<noteq> Pending \<Longrightarrow> status st (Run k) \<noteq> Pending"
    and "\<And>k. k < ntasks st \<Longrightarrow> k \<notin> set (started st)
            \<Longrightarrow> (queueBefore k, CallTask k, Run k) \<in> set (thens st)"
    and "\<And>k. k \<in> set (started st) \<Longrightarrow> status st (Run k) = Pending
            \<Longrightarrow> (Result k, Run k) \<in> set (adopts st)"
    and "\<And>k. k < ntasks st \<Longrightarrow> status st (Tail k) = Pending
            \<Longrightarrow> (Run k, ReturnUndefined, Tail k) \<in> set (thens st)"
  shows "chainInv st"
  unfolding chainInv_def by (intro conjI ballI allI impI) (simp_all add: assms)

lemma chainInvD:
  assumes "chainInv st"
  shows "geminiQueue st = queueBefore (ntasks st)"
    and "status st Initial = Fulfilled"
    and "x \<in> set (thens st) \<Longrightarrow>
            (\<exists>k < ntasks st. x = (queueBefore k, CallTask k, Run k))
          \<or> (\<exists>k < ntasks st. x = (Run k, ReturnUndefined, Tail k))"
    and "y \<in> set (adopts st) \<Longrightarrow> \<exists>k < ntasks st. y = (Result k, Run k)"
    and "k \<in> set (started st) \<Longrightarrow> k < ntasks st \<and> status st (queueBefore k) \<noteq> Pending"
    and "status st (Result k) \<noteq> Pending \<Longrightarrow> k \<in> set (started st)"
    and "status st (Run k) \<noteq> Pending \<Longrightarrow> status st (Result k) \<noteq> Pending"
    and "status st (Tail k) \<noteq> Pending \<Longrightarrow> status st (Run k) \<noteq> Pending"
    and "k < ntasks st \<Longrightarrow> k \<notin> set (started st)
            \<Longrightarrow> (queueBefore k, CallTask k, Run k) \<in> set (thens st)"
    and "k \<in> set (started st) \<Longrightarrow> status st (Run k) = Pending
            \<Longrightarrow> (Result k, Run k) \<in> set (adopts st)"
    and "k < ntasks st \<Longrightarrow> status st (Tail k) = Pending
            \<Longrightarrow> (Run k, ReturnUndefined, Tail k) \<in> set (thens st)"
  using assms unfolding chainInv_def by simp_all

lemma chainInv_React_task:
  assumes inv: "chainInv st" and i: "i < length (thens st)"
    and x: "thens st ! i = (queueBefore k, CallTask k, Run k)" and k: "k < ntasks st"
    and en: "status st (queueBefore k) \<noteq> Pending"
    and st': "st' = st\<lparr> thens := remove_nth i (thens st), started := started st @ [k],
                         adopts := adopts st @ [(Result k, Run k)] \<rparr>"
  shows "chainInv st'"
proof (rule chainInvI)
  note d = chainInvD [OF inv]
  note sub = set_remove_nth_subset [of i "thens st"]
  show "geminiQueue st' = queueBefore (ntasks st')" using d(1) by (simp add: st')
  show "status st' Initial = Fulfilled" using d(2) by (simp add: st')
  show "(\<exists>k < ntasks st'. y = (queueBefore k, CallTask k, Run k))
          \<or> (\<exists>k < ntasks st'. y = (Run k, ReturnUndefined, Tail k))"
    if "y \<in> set (thens st')" for y
  proof -
    from that sub have "y \<in> set (thens st)" by (auto simp: st')
    from d(3) [OF this] show ?thesis by (simp add: st')
  qed
  show "\<exists>k < ntasks st'. y = (Result k, Run k)" if "y \<in> set (adopts st')" for y
    using that d(4) [of y] k by (auto simp: st')
  show "j < ntasks st' \<and> status st' (queueBefore j) \<noteq> Pending" if "j \<in> set (started st')" for j
    using that d(5) [of j] k en by (auto simp: st')
  show "j \<in> set (started st')" if "status st' (Result j) \<noteq> Pending" for j
    using that d(6) [of j] by (simp add: st')
  show "status st' (Result j) \<noteq> Pending" if "status st' (Run j) \<noteq> Pending" for j
    using that d(7) [of j] by (simp add: st')
  show "status st' (Run j) \<noteq> Pending" if "status st' (Tail j) \<noteq> Pending" for j
    using that d(8) [of j] by (simp add: st')
  show "(queueBefore j, CallTask j, Run j) \<in> set (thens st')"
    if "j < ntasks st'" "j \<notin> set (started st')" for j
  proof -
    from that have j: "j < ntasks st" "j \<notin> set (started st)" "j \<noteq> k" by (auto simp: st')
    from d(9) [OF j(1,2)] have "(queueBefore j, CallTask j, Run j) \<in> set (thens st)" .
    moreover have "(queueBefore j, CallTask j, Run j) \<noteq> thens st ! i" using j(3) x by simp
    ultimately show ?thesis using remove_nth_keeps [OF i] by (simp add: st')
  qed
  show "(Result j, Run j) \<in> set (adopts st')"
    if "j \<in> set (started st')" "status st' (Run j) = Pending" for j
    using that d(10) [of j] by (auto simp: st')
  show "(Run j, ReturnUndefined, Tail j) \<in> set (thens st')"
    if "j < ntasks st'" "status st' (Tail j) = Pending" for j
  proof -
    from that have j: "j < ntasks st" "status st (Tail j) = Pending" by (auto simp: st')
    from d(11) [OF j] have "(Run j, ReturnUndefined, Tail j) \<in> set (thens st)" .
    moreover have "(Run j, ReturnUndefined, Tail j) \<noteq> thens st ! i" using x by simp
    ultimately show ?thesis using remove_nth_keeps [OF i] by (simp add: st')
  qed
qed

lemma chainInv_React_undefined:
  assumes inv: "chainInv st" and i: "i < length (thens st)"
    and x: "thens st ! i = (Run k, ReturnUndefined, Tail k)" and k: "k < ntasks st"
    and en: "status st (Run k) \<noteq> Pending"
    and st': "st' = st\<lparr> thens := remove_nth i (thens st),
                         status := (status st)(Tail k := Fulfilled) \<rparr>"
  shows "chainInv st'"
proof (rule chainInvI)
  note d = chainInvD [OF inv]
  note sub = set_remove_nth_subset [of i "thens st"]
  show "geminiQueue st' = queueBefore (ntasks st')" using d(1) by (simp add: st')
  show "status st' Initial = Fulfilled" using d(2) by (simp add: st')
  show "(\<exists>k < ntasks st'. y = (queueBefore k, CallTask k, Run k))
          \<or> (\<exists>k < ntasks st'. y = (Run k, ReturnUndefined, Tail k))"
    if "y \<in> set (thens st')" for y
  proof -
    from that sub have "y \<in> set (thens st)" by (auto simp: st')
    from d(3) [OF this] show ?thesis by (simp add: st')
  qed
  show "\<exists>k < ntasks st'. y = (Result k, Run k)" if "y \<in> set (adopts st')" for y
    using that d(4) [of y] by (simp add: st')
  show "j < ntasks st' \<and> status st' (queueBefore j) \<noteq> Pending" if "j \<in> set (started st')" for j
    using that d(5) [of j] by (auto simp: st')
  show "j \<in> set (started st')" if "status st' (Result j) \<noteq> Pending" for j
    using that d(6) [of j] by (simp add: st')
  show "status st' (Result j) \<noteq> Pending" if "status st' (Run j) \<noteq> Pending" for j
    using that d(7) [of j] by (simp add: st')
  show "status st' (Run j) \<noteq> Pending" if "status st' (Tail j) \<noteq> Pending" for j
    using that d(8) [of j] en by (auto simp: st' split: if_splits)
  show "(queueBefore j, CallTask j, Run j) \<in> set (thens st')"
    if "j < ntasks st'" "j \<notin> set (started st')" for j
  proof -
    from that have j: "j < ntasks st" "j \<notin> set (started st)" by (auto simp: st')
    from d(9) [OF j] have "(queueBefore j, CallTask j, Run j) \<in> set (thens st)" .
    moreover have "(queueBefore j, CallTask j, Run j) \<noteq> thens st ! i" using x by simp
    ultimately show ?thesis using remove_nth_keeps [OF i] by (simp add: st')
  qed
  show "(Result j, Run j) \<in> set (adopts st')"
    if "j \<in> set (started st')" "status st' (Run j) = Pending" for j
    using that d(10) [of j] by (auto simp: st')
  show "(Run j, ReturnUndefined, Tail j) \<in> set (thens st')"
    if "j < ntasks st'" "status st' (Tail j) = Pending" for j
  proof -
    from that have j: "j < ntasks st" "status st (Tail j) = Pending" "j \<noteq> k"
      by (auto simp: st' split: if_splits)
    from d(11) [OF j(1,2)] have "(Run j, ReturnUndefined, Tail j) \<in> set (thens st)" .
    moreover have "(Run j, ReturnUndefined, Tail j) \<noteq> thens st ! i" using x j(3) by simp
    ultimately show ?thesis using remove_nth_keeps [OF i] by (simp add: st')
  qed
qed

lemma chainInv_React:
  assumes "chainInv st" and "step (React i) st = Some st'"
  shows "chainInv st'"
proof -
  from assms(2) have i: "i < length (thens st)"
    by (auto split: if_splits)
  obtain source h derived where x: "thens st ! i = (source, h, derived)"
    by (cases \<open>thens st ! i\<close>)
  from assms(2) i x have en: "status st source \<noteq> Pending"
    by (auto split: if_splits)
  have xin: "(source, h, derived) \<in> set (thens st)"
    using i x by (metis nth_mem)
  from chainInvD(3) [OF assms(1) xin] show ?thesis
  proof (elim disjE exE conjE)
    fix k assume k: "k < ntasks st" and e: "(source, h, derived) = (queueBefore k, CallTask k, Run k)"
    from assms(2) i x e have st': "st' = st\<lparr> thens := remove_nth i (thens st),
                               started := started st @ [k],
                               adopts := adopts st @ [(Result k, Run k)] \<rparr>"
      by (auto split: if_splits)
    from en e have en': "status st (queueBefore k) \<noteq> Pending" by simp
    from x e have x': "thens st ! i = (queueBefore k, CallTask k, Run k)" by simp
    from assms(1) i x' k en' st' show ?thesis by (rule chainInv_React_task)
  next
    fix k assume k: "k < ntasks st" and e: "(source, h, derived) = (Run k, ReturnUndefined, Tail k)"
    from assms(2) i x e have st': "st' = st\<lparr> thens := remove_nth i (thens st),
                               status := (status st)(Tail k := Fulfilled) \<rparr>"
      by (auto split: if_splits)
    from en e have en': "status st (Run k) \<noteq> Pending" by simp
    from x e have x': "thens st ! i = (Run k, ReturnUndefined, Tail k)" by simp
    from assms(1) i x' k en' st' show ?thesis by (rule chainInv_React_undefined)
  qed
qed

lemma chainInv_Adopt:
  assumes inv: "chainInv st" and "step (Adopt i) st = Some st'"
  shows "chainInv st'"
proof -
  from assms(2) have i: "i < length (adopts st)"
    by (auto split: if_splits)
  obtain inner outer where x0: "adopts st ! i = (inner, outer)"
    by (cases \<open>adopts st ! i\<close>)
  from assms(2) i x0 have en0: "status st inner \<noteq> Pending"
    by (auto split: if_splits)
  have xin: "(inner, outer) \<in> set (adopts st)"
    using i x0 by (metis nth_mem)
  from chainInvD(4) [OF inv xin] obtain k where k: "k < ntasks st"
    and e: "(inner, outer) = (Result k, Run k)" by blast
  from assms(2) i x0 e have st': "st' = st\<lparr> adopts := remove_nth i (adopts st),
                             status := (status st)(Run k := status st (Result k)) \<rparr>"
    by (auto split: if_splits)
  from en0 e have en: "status st (Result k) \<noteq> Pending" by simp
  from x0 e have x: "adopts st ! i = (Result k, Run k)" by simp
  note d = chainInvD [OF inv]
  note sub = set_remove_nth_subset [of i "adopts st"]
  show ?thesis
  proof (rule chainInvI)
    show "geminiQueue st' = queueBefore (ntasks st')" using d(1) by (simp add: st')
    show "status st' Initial = Fulfilled" using d(2) by (simp add: st')
    show "(\<exists>k < ntasks st'. y = (queueBefore k, CallTask k, Run k))
            \<or> (\<exists>k < ntasks st'. y = (Run k, ReturnUndefined, Tail k))"
      if "y \<in> set (thens st')" for y
      using that d(3) [of y] by (simp add: st')
    show "\<exists>k < ntasks st'. y = (Result k, Run k)" if "y \<in> set (adopts st')" for y
    proof -
      from that sub have "y \<in> set (adopts st)" by (auto simp: st')
      from d(4) [OF this] show ?thesis by (simp add: st')
    qed
    show "j < ntasks st' \<and> status st' (queueBefore j) \<noteq> Pending" if "j \<in> set (started st')" for j
      using that d(5) [of j] by (auto simp: st')
    show "j \<in> set (started st')" if "status st' (Result j) \<noteq> Pending" for j
      using that d(6) [of j] by (simp add: st')
    show "status st' (Result j) \<noteq> Pending" if "status st' (Run j) \<noteq> Pending" for j
      using that d(7) [of j] en by (auto simp: st' split: if_splits)
    show "status st' (Run j) \<noteq> Pending" if "status st' (Tail j) \<noteq> Pending" for j
      using that d(8) [of j] en by (auto simp: st' split: if_splits)
    show "(queueBefore j, CallTask j, Run j) \<in> set (thens st')"
      if "j < ntasks st'" "j \<notin> set (started st')" for j
      using that d(9) [of j] by (simp add: st')
    show "(Result j, Run j) \<in> set (adopts st')"
      if "j \<in> set (started st')" "status st' (Run j) = Pending" for j
    proof -
      from that en have j: "j \<in> set (started st)" "status st (Run j) = Pending" "j \<noteq> k"
        by (auto simp: st' split: if_splits)
      from d(10) [OF j(1,2)] have "(Result j, Run j) \<in> set (adopts st)" .
      moreover have "(Result j, Run j) \<noteq> adopts st ! i" using x j(3) by simp
      ultimately show ?thesis using remove_nth_keeps [OF i] by (simp add: st')
    qed
    show "(Run j, ReturnUndefined, Tail j) \<in> set (thens st')"
      if "j < ntasks st'" "status st' (Tail j) = Pending" for j
      using that d(11) [of j] by (simp add: st')
  qed
qed

lemma chainInv_step: "chainInv st \<Longrightarrow> step a st = Some st' \<Longrightarrow> chainInv st'"
  by (cases a) (auto intro: chainInv_Enqueue chainInv_React chainInv_Adopt chainInv_Settle)

lemma chainInv_exec: "chainInv st \<Longrightarrow> exec acts st = Some st' \<Longrightarrow> chainInv st'"
proof (induction acts arbitrary: st)
  case Nil
  then show ?case by simp
next
  case (Cons a acts)
  then show ?case
    by (auto split: option.splits dest: chainInv_step)
qed

lemma started_after_settled:
  "chainInv st \<Longrightarrow> k \<in> set (started st) \<Longrightarrow> \<forall>j<k. j \<in> set (started st) \<and> settled st j"
proof (induction k)
  case 0
  then show ?case by simp
next
  case (Suc k)
  note d = chainInvD [OF Suc.prems(1)]
  from d(5) [OF Suc.prems(2)] have "status st (Tail k) \<noteq> Pending" by simp
  then have "status st (Run k) \<noteq> Pending" by (rule d(8))
  then have r: "status st (Result k) \<noteq> Pending" by (rule d(7))
  then have s: "k \<in> set (started st)" by (rule d(6))
  from Suc.IH [OF Suc.prems(1) s] r s show ?case
    by (auto simp: less_Suc_eq settled_def)
qed

lemma one_in_flight:
  assumes "chainInv st" and "inFlight st k" and "inFlight st k'"
  shows "k = k'"
proof (rule ccontr)
  assume "k \<noteq> k'"
  then have "k < k' \<or> k' < k" by arith
  then show False
  proof (elim disjE)
    assume "k < k'"
    with started_after_settled [OF assms(1), of k'] assms(2,3) show False
      by (auto simp: inFlight_def settled_def)
  next
    assume "k' < k"
    with started_after_settled [OF assms(1), of k] assms(2,3) show False
      by (auto simp: inFlight_def settled_def)
  qed
qed

lemma quiescent_thens:
  "quiescent st \<Longrightarrow> (source, h, derived) \<in> set (thens st) \<Longrightarrow> status st source = Pending"
  by (auto simp: quiescent_def list_all_iff)

lemma quiescent_adopts:
  "quiescent st \<Longrightarrow> (inner, outer) \<in> set (adopts st) \<Longrightarrow> status st inner = Pending"
  by (auto simp: quiescent_def list_all_iff)

lemma quiescent_started:
  assumes inv: "chainInv st" and q: "quiescent st" and k: "k < ntasks st"
    and before: "\<forall>j<k. settled st j"
  shows "k \<in> set (started st)"
proof (rule ccontr)
  assume ns: "k \<notin> set (started st)"
  note d = chainInvD [OF inv]
  from d(9) [OF k ns] have "(queueBefore k, CallTask k, Run k) \<in> set (thens st)" .
  with q have p: "status st (queueBefore k) = Pending" by (rule quiescent_thens)
  show False
  proof (cases k)
    case 0
    with p d(2) show False by simp
  next
    case (Suc j)
    with p have tp: "status st (Tail j) = Pending" by simp
    from Suc k have j: "j < ntasks st" by simp
    from d(11) [OF j tp] have "(Run j, ReturnUndefined, Tail j) \<in> set (thens st)" .
    with q have rp: "status st (Run j) = Pending" by (rule quiescent_thens)
    from before Suc have sj: "status st (Result j) \<noteq> Pending" by (simp add: settled_def)
    then have "j \<in> set (started st)" by (rule d(6))
    from d(10) [OF this rp] have "(Result j, Run j) \<in> set (adopts st)" .
    with q have "status st (Result j) = Pending" by (rule quiescent_adopts)
    with sj show False by simp
  qed
qed

section \<open>Claims\<close>

text \<open>
  C1. \<open>runExperiment\<close> returns exactly four blinded responses, in serial and in
  concurrent mode, whatever the gateway does: their blind ids are the four fixed labels
  (in order, so without duplicates), and their source condition ids are the four condition
  ids, each once, so no two responses share one.
\<close>

theorem runExperiment_blinded_responses:
  assumes "drawsInRange rnd 4"
  shows "length (responses (runExperiment env callLlm rnd views q s)) = 4
     \<and> map blindId (responses (runExperiment env callLlm rnd views q s))
         = [''Response A'', ''Response B'', ''Response C'', ''Response D'']
     \<and> distinct (map blindId (responses (runExperiment env callLlm rnd views q s)))
     \<and> mset (map sourceConditionId (responses (runExperiment env callLlm rnd views q s)))
         = mset [Single_plain, Multi_mixed_models, Multi_same_model_roles, Single_role]
     \<and> distinct (map sourceConditionId (responses (runExperiment env callLlm rnd views q s)))"
proof -
  define res where "res = (if SERIALIZE_CONDITIONS env
       then fst (runConditionsSequentially (conditionRunners env callLlm q) s)
       else runConditionsInParallel views (conditionRunners env callLlm q))"
  have resp: "responses (runExperiment env callLlm rnd views q s) = blindAndShuffle rnd res"
    by (simp add: runExperiment_def res_def Let_def)
  have ids: "map conditionId res = conditionIds"
    using res_def by (rule conditionResults_ids)
  have "length (map conditionId res) = length conditionIds"
    by (simp only: ids)
  then have l4: "length res = 4"
    by (simp add: conditionIds_def)
  have len: "length (blindAndShuffle rnd res) = 4"
    using l4 by (simp add: length_blindAndShuffle)
  have "map blindId (blindAndShuffle rnd res) = map blindLabel [0..<4]"
    using len l4 by (intro nth_equalityI) (simp_all add: blindId_blindAndShuffle)
  also have "\<dots> = [''Response A'', ''Response B'', ''Response C'', ''Response D'']"
    by code_simp
  finally have bid: "map blindId (blindAndShuffle rnd res)
      = [''Response A'', ''Response B'', ''Response C'', ''Response D'']" .
  have "mset (map unblind (blindAndShuffle rnd res)) = mset res"
    using assms l4 by (intro mset_unblind_blindAndShuffle) simp
  then have m1: "mset (map conditionId (map unblind (blindAndShuffle rnd res)))
      = mset (map conditionId res)"
    by (metis mset_map)
  have m2: "map conditionId (map unblind (blindAndShuffle rnd res))
      = map sourceConditionId (blindAndShuffle rnd res)"
    by (simp add: unblind_def)
  have ms: "mset (map sourceConditionId (blindAndShuffle rnd res)) = mset conditionIds"
    using m1 unfolding m2 ids .
  have "distinct conditionIds" by (simp add: conditionIds_def)
  then have ds: "distinct (map sourceConditionId (blindAndShuffle rnd res))"
    using ms by (metis mset_eq_imp_distinct_iff)
  have db: "distinct (map blindId (blindAndShuffle rnd res))"
    unfolding bid by simp
  show ?thesis
    unfolding resp using len bid db ms ds by (simp add: conditionIds_def)
qed

theorem runExperiment_blinded_responses_witness:
  "drawsInRange (\<lambda>i. 0) 4
   \<and> map blindId (responses (runExperiment sampleEnv counterLlm (\<lambda>i. 0) (\<lambda>i. 0) ''Why?'' 0))
       = [''Response A'', ''Response B'', ''Response C'', ''Response D'']
   \<and> map sourceConditionId (responses (runExperiment sampleEnv counterLlm (\<lambda>i. 0) (\<lambda>i. 0) ''Why?'' 0))
       = [Multi_mixed_models, Multi_same_model_roles, Single_role, Single_plain]
   \<and> map blind_answer (responses (runExperiment sampleEnv counterLlm (\<lambda>i. 0) (\<lambda>i. 0) ''Why?'' 0))
       = [''reply 9'', ''reply 18'', ''reply 19'', ''reply 0'']"
proof -
  have d: "drawsInRange (\<lambda>i. 0) 4" by (simp add: drawsInRange_def)
  have ev: "map sourceConditionId (responses (runExperiment sampleEnv counterLlm (\<lambda>i. 0) (\<lambda>i. 0) ''Why?'' 0))
       = [Multi_mixed_models, Multi_same_model_roles, Single_role, Single_plain]"
    by code_simp
  have an: "map blind_answer (responses (runExperiment sampleEnv counterLlm (\<lambda>i. 0) (\<lambda>i. 0) ''Why?'' 0))
       = [''reply 9'', ''reply 18'', ''reply 19'', ''reply 0'']"
    by code_simp
  show ?thesis
    using d ev an runExperiment_blinded_responses [OF d, of sampleEnv counterLlm "\<lambda>i. 0" "''Why?''" 0]
    by simp
qed

text \<open>
  C2. Four runners, of which the one at position \<open>k\<close> throws \<open>e\<close> and the other three
  return. In serial mode (\<open>serial\<close>, outcomes as the runners settle one after another) and
  in concurrent mode (outcomes of \<open>Promise.allSettled\<close>) alike, the coordinator has four
  results: the one at position \<open>k\<close> is the synthetic failure result, whose condition id and
  label are the \<open>k\<close>-th entry of the fixed four-slot table, whose answer is the failure
  text followed by the error's message (the fixed words "Unknown failure" for a thrown value
  that is not an \<open>Error\<close>), and whose transcript is empty; each other position holds its
  runner's result unchanged. Blinding then returns four responses, a rearrangement of these
  four results.
\<close>

theorem one_failure_is_isolated:
  assumes "length runners = 4" and "k < 4"
    and "outs = (if serial then settleSeq runners s else allSettled views runners)"
    and "res = (if serial then fst (runConditionsSequentially runners s)
                else runConditionsInParallel views runners)"
    and "outs ! k = Inl e" and "\<forall>j<4. j \<noteq> k \<longrightarrow> \<not> isl (outs ! j)"
    and "drawsInRange rnd 4"
  shows "length res = 4
     \<and> res ! k = \<lparr> conditionId = fst (fallbackMappings ! k),
                   conditionLabel = snd (fallbackMappings ! k),
                   answer = ''This condition failed to run.'' @ nl @ nl @ ''Error: ''
                     @ (if instanceofError e then message e else ''Unknown failure''),
                   transcript = [] \<rparr>
     \<and> (\<forall>j<4. j \<noteq> k \<longrightarrow> outs ! j = Inr (res ! j))
     \<and> length (blindAndShuffle rnd res) = 4
     \<and> mset (map unblind (blindAndShuffle rnd res)) = mset res"
proof -
  have len: "length outs = 4"
    using assms(1,3) by (simp add: length_settleSeq length_allSettled)
  have res: "res = map (\<lambda>(i, out). resultOf i out) (enumerate 0 outs)"
    using assms(3,4)
    by (simp add: runConditionsSequentially_results runConditionsInParallel_results)
  note iso = isolated_outcomes[OF len assms(2) res assms(5,6)]
  then have l4: "length res = 4" by simp
  have "length (blindAndShuffle rnd res) = 4"
    using l4 by (simp add: length_blindAndShuffle)
  moreover have "mset (map unblind (blindAndShuffle rnd res)) = mset res"
    using assms(7) l4 by (intro mset_unblind_blindAndShuffle) simp
  ultimately show ?thesis using iso by blast
qed

theorem one_failure_is_isolated_witness:
  "length (fst (runConditionsSequentially sampleRunners 0)) = 4
   \<and> fst (runConditionsSequentially sampleRunners 0) ! 1
       = \<lparr> conditionId = Multi_mixed_models, conditionLabel = ''4-agent mixed-model debate'',
           answer = ''This condition failed to run.'' @ nl @ nl @ ''Error: boom'', transcript = [] \<rparr>
   \<and> fst (runConditionsSequentially sampleRunners 0) ! 0 = sampleResult Single_plain ''a''
   \<and> fst (runConditionsSequentially sampleRunners 0) ! 2 = sampleResult Multi_same_model_roles ''c''
   \<and> fst (runConditionsSequentially sampleRunners 0) ! 3 = sampleResult Single_role ''d''
   \<and> runConditionsInParallel (\<lambda>i. i) sampleRunners ! 1
       = fst (runConditionsSequentially sampleRunners 0) ! 1
   \<and> runConditionsInParallel (\<lambda>i. i) sampleRunners ! 3 = sampleResult Single_role ''d''
   \<and> length (blindAndShuffle (\<lambda>i. 0) (fst (runConditionsSequentially sampleRunners 0))) = 4"
proof -
  let ?outs = "[Inr (sampleResult Single_plain ''a''), Inl (JsError ''boom''),
        Inr (sampleResult Multi_same_model_roles ''c''), Inr (sampleResult Single_role ''d'')]"
  have l: "length sampleRunners = 4" by (simp add: sampleRunners_def)
  have k: "(1::nat) < 4" by simp
  have f: "?outs ! 1 = Inl (JsError ''boom'')" by simp
  have o: "\<forall>j<4. j \<noteq> 1 \<longrightarrow> \<not> isl (?outs ! j)" by (simp add: less_4_cases)
  have d: "drawsInRange (\<lambda>i. 0) 4" by (simp add: drawsInRange_def)
  have so: "?outs = (if True then settleSeq sampleRunners 0 else allSettled (\<lambda>i. i) sampleRunners)"
    by (simp add: settleSeq_sampleRunners)
  have po: "?outs = (if False then settleSeq sampleRunners 0 else allSettled (\<lambda>i. i) sampleRunners)"
    by (simp add: allSettled_sampleRunners)
  have sr: "fst (runConditionsSequentially sampleRunners 0)
      = (if True then fst (runConditionsSequentially sampleRunners 0)
         else runConditionsInParallel (\<lambda>i. i) sampleRunners)"
    by simp
  have pr: "runConditionsInParallel (\<lambda>i. i) sampleRunners
      = (if False then fst (runConditionsSequentially sampleRunners 0)
         else runConditionsInParallel (\<lambda>i. i) sampleRunners)"
    by simp
  note ser = one_failure_is_isolated [where rnd = "\<lambda>i. 0", OF l k so sr f o d]
  note par = one_failure_is_isolated [where rnd = "\<lambda>i. 0", OF l k po pr f o d]
  have fb: "fallbackMappings ! 1 = (Multi_mixed_models, ''4-agent mixed-model debate'')"
    by (simp add: fallbackMappings_def)
  have s1: "fst (runConditionsSequentially sampleRunners 0) ! 1
       = \<lparr> conditionId = Multi_mixed_models, conditionLabel = ''4-agent mixed-model debate'',
           answer = ''This condition failed to run.'' @ nl @ nl @ ''Error: boom'', transcript = [] \<rparr>"
    using ser [THEN conjunct2, THEN conjunct1] unfolding fb by simp
  have p1: "runConditionsInParallel (\<lambda>i. i) sampleRunners ! 1
       = \<lparr> conditionId = Multi_mixed_models, conditionLabel = ''4-agent mixed-model debate'',
           answer = ''This condition failed to run.'' @ nl @ nl @ ''Error: boom'', transcript = [] \<rparr>"
    using par [THEN conjunct2, THEN conjunct1] unfolding fb by simp
  note sothers = ser [THEN conjunct2, THEN conjunct2, THEN conjunct1, rule_format]
  note pothers = par [THEN conjunct2, THEN conjunct2, THEN conjunct1, rule_format]
  have s0: "fst (runConditionsSequentially sampleRunners 0) ! 0 = sampleResult Single_plain ''a''"
    using sothers [of 0] by simp
  have s2: "fst (runConditionsSequentially sampleRunners 0) ! 2
      = sampleResult Multi_same_model_roles ''c''"
    using sothers [of 2] by simp
  have s3: "fst (runConditionsSequentially sampleRunners 0) ! 3 = sampleResult Single_role ''d''"
    using sothers [of 3] by simp
  have p3: "runConditionsInParallel (\<lambda>i. i) sampleRunners ! 3 = sampleResult Single_role ''d''"
    using pothers [of 3] by simp
  have l4: "length (fst (runConditionsSequentially sampleRunners 0)) = 4"
    using ser [THEN conjunct1] .
  have b4: "length (blindAndShuffle (\<lambda>i. 0) (fst (runConditionsSequentially sampleRunners 0))) = 4"
    using ser [THEN conjunct2, THEN conjunct2, THEN conjunct2, THEN conjunct1] .
  have p1': "runConditionsInParallel (\<lambda>i. i) sampleRunners ! 1
       = fst (runConditionsSequentially sampleRunners 0) ! 1"
    by (simp only: s1 p1)
  show ?thesis
    by (intro conjI l4 s1 s0 s2 s3 p1' p3 b4)
qed

text \<open>
  C3. A debate with an integer round count \<open>rounds\<close> over a non-empty roster, in which
  every gateway call returns a text, returns a result. Its transcript has \<open>rounds * agents\<close> turns followed by one synthesis turn:
  the turns before the last are, in order, one per agent in roster order for round 1, then
  for round 2, and so on up to round \<open>rounds\<close>; the last turn is the moderator's, with
  round number \<open>rounds + 1\<close>, and its content is the debate's answer.
\<close>

theorem runDebate_transcript:
  assumes "alwaysAnswers callLlm" and "agents \<noteq> []"
  shows "\<exists>res s' m. runDebate callLlm maxTok q agents (Num rounds) s = (Inr res, s')
     \<and> findModerator agents = Some m
     \<and> length (debate_transcript res) = nat rounds * length agents + 1
     \<and> slots (butlast (debate_transcript res)) = roundSlots agents rounds
     \<and> slots [last (debate_transcript res)] = [(Num (rounds + 1), agent_id m)]
     \<and> debate_answer res = turn_content (last (debate_transcript res))"
proof -
  from runDebate_succeeds[OF assms] obtain res s' where
    run: "runDebate callLlm maxTok q agents (Num rounds) s = (Inr res, s')" by blast
  from runDebate_shape[OF run] obtain m where
    m: "findModerator agents = Some m"
    and sl: "slots (debate_transcript res) = roundSlots agents rounds @ [(Num (rounds + 1), agent_id m)]"
    and ne: "debate_transcript res \<noteq> []"
    and an: "debate_answer res = turn_content (last (debate_transcript res))"
    by blast
  have len: "length (debate_transcript res) = nat rounds * length agents + 1"
    using arg_cong[OF sl, of length] by (simp add: slots_def length_roundSlots)
  have bl: "slots (butlast (debate_transcript res)) = roundSlots agents rounds"
    using arg_cong[OF sl, of butlast] by (simp add: slots_def map_butlast)
  have la: "slots [last (debate_transcript res)] = [(Num (rounds + 1), agent_id m)]"
    using arg_cong[OF sl, of last] ne by (simp add: slots_def last_map)
  show ?thesis using run m len bl la an by blast
qed

theorem runDebate_transcript_witness:
  "alwaysAnswers counterLlm \<and> twoAgents \<noteq> []
   \<and> (\<exists>res s'. runDebate counterLlm (Num 450) ''Why?'' twoAgents (Num 2) 0 = (Inr res, s')
        \<and> length (debate_transcript res) = 5
        \<and> slots (debate_transcript res)
            = [(Num 1, ''lead_moderator''), (Num 1, ''skeptic''), (Num 2, ''lead_moderator''),
               (Num 2, ''skeptic''),
               (Num 3, ''lead_moderator'')]
        \<and> debate_answer res = ''reply 4'')"
proof -
  have ne: "twoAgents \<noteq> []"
    by (simp add: twoAgents_def buildSameModelRoleAgents_def)
  have ev: "slots (debate_transcript (projr (fst (runDebate counterLlm (Num 450) ''Why?'' twoAgents (Num 2) 0))))
      = [(Num 1, ''lead_moderator''), (Num 1, ''skeptic''), (Num 2, ''lead_moderator''),
               (Num 2, ''skeptic''),
         (Num 3, ''lead_moderator'')]"
    by code_simp
  have an: "debate_answer (projr (fst (runDebate counterLlm (Num 450) ''Why?'' twoAgents (Num 2) 0))) = ''reply 4''"
    by code_simp
  from runDebate_transcript[OF alwaysAnswers_counterLlm ne, of "Num 450" "''Why?''" 2 0]
  obtain res s' where run: "runDebate counterLlm (Num 450) ''Why?'' twoAgents (Num 2) 0 = (Inr res, s')"
    and len: "length (debate_transcript res) = nat 2 * length twoAgents + 1"
    by blast
  have "length twoAgents = 2"
    by (simp add: twoAgents_def buildSameModelRoleAgents_def)
  with len have "length (debate_transcript res) = 5" by simp
  with run ev an alwaysAnswers_counterLlm ne show ?thesis by simp
qed

text \<open>
  C4. The calls of a debate are recorded in order (\<open>callsOf\<close>; recording changes nothing
  in the result of the run). With \<open>A\<close> agents and a round count of \<open>R\<close>, the call at a
  position \<open>n\<close> of the record with \<open>A \<le> n < R * A\<close> is the call of round
  \<open>r = n div A + 1\<close>, which is 2 or more, for the agent X at roster position
  \<open>n mod A\<close>: it goes to the provider and model of X, and its last message is the round
  prompt, a user message with the text spelled out below. The calls of round \<open>r - 1\<close> are
  at the positions \<open>(r - 2) * A + k\<close> for \<open>k < A\<close>: the \<open>k\<close>-th went to agent \<open>k\<close>
  and returned a text, and in a run that returns, the transcript holds at that position
  the round \<open>r - 1\<close> turn of agent \<open>k\<close> with that text as its content. Between the line
  "Peer updates from the previous round:" and the task, the prompt holds the entries
  joined by newlines: one entry "- name: text" for each agent \<open>k\<close>, in roster order,
  whose id differs from the id of X, where the text is the content of the round
  \<open>r - 1\<close> turn of agent \<open>k\<close> cut to 280 characters (its first 277 characters and
  three dots when it is longer); there is no entry for a turn with the id of X, and the one
  line "- No prior peer statements available." when no agent has another id. With ids
  that are unique in the roster the entries are those of all agents but X.
\<close>

theorem round_prompts_peer_context:
  assumes "calls = callsOf callLlm maxTok q agents rounds s"
    and "A = length agents"
    and "n < length calls" and "A \<le> n" and "n < roundCount rounds * A"
    and "i = n div A" and "j = n mod A"
    and "entries = map (\<lambda>k. peerEntry (agents ! k) (replyOf (calls ! ((i - 1) * A + k))))
                     (filter (\<lambda>k. agent_id (agents ! k) \<noteq> agent_id (agents ! j)) [0..<A])"
  shows "fst (runDebate (logged callLlm) maxTok q agents rounds ([], s))
        = fst (runDebate callLlm maxTok q agents rounds s)
     \<and> 1 \<le> i \<and> j < A
     \<and> provider (fst (calls ! n)) = agent_provider (agents ! j)
     \<and> model (fst (calls ! n)) = agent_model (agents ! j)
     \<and> promptOf (calls ! n)
         = Some \<lparr> role = User,
                  content = join nl
                    [''Question: '' @ q,
                     ''Round '' @ showInt (int i + 1) @ '' of '' @ showNumber rounds,
                     '''',
                     ''Peer updates from the previous round:'',
                     (if entries = [] then ''- No prior peer statements available.''
                      else join nl entries),
                     '''',
                     ''Task:'',
                     ''- Critique at least one peer claim.'',
                     ''- Defend your current answer or concede to a stronger answer.'',
                     ''- Ask up to 2 pointed questions only if needed.'',
                     ''- End with an updated confidence score from 0-100.'',
                     '''',
                     ''Format:'',
                     ''Current answer:'',
                     ''Why this is stronger (or concession):'',
                     ''Questions for peers:'',
                     ''Confidence:''] \<rparr>
     \<and> (\<forall>k < A. provider (fst (calls ! ((i - 1) * A + k))) = agent_provider (agents ! k)
              \<and> model (fst (calls ! ((i - 1) * A + k))) = agent_model (agents ! k)
              \<and> snd (calls ! ((i - 1) * A + k)) = Inr (replyOf (calls ! ((i - 1) * A + k))))
     \<and> (\<forall>res s'. runDebate callLlm maxTok q agents rounds s = (Inr res, s') \<longrightarrow>
          (\<forall>k < A. debate_transcript res ! ((i - 1) * A + k)
             = \<lparr> turn_round = Num (int i), agentId = agent_id (agents ! k),
                 agentName = agent_name (agents ! k), turn_provider = agent_provider (agents ! k),
                 turn_model = agent_model (agents ! k),
                 turn_content = replyOf (calls ! ((i - 1) * A + k)) \<rparr>))
     \<and> (distinct (map agent_id agents) \<longrightarrow>
          filter (\<lambda>k. agent_id (agents ! k) \<noteq> agent_id (agents ! j)) [0..<A]
            = filter (\<lambda>k. k \<noteq> j) [0..<A])"
proof -
  from runDebate_logged[of callLlm maxTok q agents rounds s] obtain chunks rest where
    lg: "callsOf callLlm maxTok q agents rounds s = concat chunks @ rest"
    and ok: "chunksOk q rounds agents 1 [] chunks"
    and rf: "rest \<noteq> [] \<longrightarrow> length (concat chunks) = roundCount rounds * length agents"
    and tr: "\<forall>res. fst (runDebate (logged callLlm) maxTok q agents rounds ([], s)) = Inr res \<longrightarrow>
          (\<forall>es \<in> set chunks. length es = length agents)
          \<and> butlast (debate_transcript res) = turnsOf agents 1 chunks"
    by blast
  have sim: "fst (runDebate (logged callLlm) maxTok q agents rounds ([], s))
        = fst (runDebate callLlm maxTok q agents rounds s)"
    using runDebate_logged_sim[of callLlm maxTok q agents rounds "([], s)"] by simp
  have pos: "0 < A"
    using assms(5) by (cases A) simp_all
  have nc: "n < length (concat chunks)"
  proof (cases \<open>rest = []\<close>)
    case True
    with lg assms(1,3) show ?thesis by simp
  next
    case False
    with rf assms(2,5) show ?thesis by simp
  qed
  have at: "calls ! m = concat chunks ! m" if "m \<le> n" for m
    using that nc unfolding assms(1) lg by (simp add: nth_append)
  from chunksOk_index[OF ok nc]
  have il: "i < length chunks" and jl: "j < length (chunks ! i)"
    and cn: "concat chunks ! n = chunks ! i ! j"
    unfolding assms(6,7) assms(2) by simp_all
  have i1: "1 \<le> i"
    unfolding assms(6) using pos assms(4) by (simp add: Suc_le_eq div_greater_zero_iff)
  let ?es = "chunks ! (i - 1)"
  from chunksOk_nth[OF ok il jl] i1
  have jA: "j < length agents"
    and cf: "callFor (agents ! j)
         (buildRoundPrompt q (1 + int i) rounds (agents ! j) (roundTurns agents (int i) ?es))
         (chunks ! i ! j)"
    and full: "length ?es = length agents" and ans: "\<forall>e \<in> set ?es. \<not> isl (snd e)"
    by simp_all
  have ni: "n = i * A + j"
    unfolding assms(6,7) by simp
  have prevAt: "calls ! ((i - 1) * A + k) = ?es ! k" if k: "k < A" for k
  proof -
    let ?m = "(i - 1) * A + k"
    have "?m < i * A"
    proof -
      have "?m < (i - 1) * A + A" using k by simp
      also have "\<dots> = i * A" using i1 by (simp add: algebra_simps flip: mult_Suc)
      finally show ?thesis .
    qed
    then have mn: "?m \<le> n" unfolding ni by simp
    with nc have mc: "?m < length (concat chunks)" by simp
    have dv: "?m div A = i - 1" using k by simp
    have md: "?m mod A = k" using k by simp
    from chunksOk_index[OF ok mc] have "concat chunks ! ?m = ?es ! k"
      unfolding assms(2)[symmetric] dv md by simp
    with at[OF mn] show ?thesis by simp
  qed
  have en: "entries = map (\<lambda>k. peerEntry (agents ! k) (replyOf (?es ! k)))
         (filter (\<lambda>k. agent_id (agents ! k) \<noteq> agent_id (agents ! j)) [0..<length agents])"
    unfolding assms(8) assms(2)[symmetric]
    by (intro map_cong refl) (simp add: prevAt[unfolded One_nat_def])
  have ne1: "1 + int i \<noteq> 1" using i1 by simp
  note bp = buildRoundPrompt_entries[OF full ne1 en, of q rounds "int i"]
  have cl: "calls ! n = chunks ! i ! j"
    using at[of n] cn by simp
  have c1: "provider (fst (calls ! n)) = agent_provider (agents ! j)"
    and c2: "model (fst (calls ! n)) = agent_model (agents ! j)"
    and c3: "promptOf (calls ! n)
         = Some \<lparr> role = User,
                  content = buildRoundPrompt q (1 + int i) rounds (agents ! j)
                              (roundTurns agents (int i) ?es) \<rparr>"
    using cf unfolding cl callFor_def by simp_all
  have prevCalls: "provider (fst (calls ! ((i - 1) * A + k))) = agent_provider (agents ! k)
              \<and> model (fst (calls ! ((i - 1) * A + k))) = agent_model (agents ! k)
              \<and> snd (calls ! ((i - 1) * A + k)) = Inr (replyOf (calls ! ((i - 1) * A + k)))"
    if k: "k < A" for k
  proof -
    have i1l: "i - 1 < length chunks" using il by simp
    have kl: "k < length ?es" using k full assms(2) by simp
    from chunksOk_nth[OF ok i1l kl]
    have "callFor (agents ! k)
         (buildRoundPrompt q (1 + int (i - 1)) rounds (agents ! k)
            (if i - 1 = 0 then [] else roundTurns agents (1 + int (i - 1) - 1) (chunks ! (i - 1 - 1))))
         (?es ! k)"
      by simp
    then have p: "provider (fst (?es ! k)) = agent_provider (agents ! k)"
      "model (fst (?es ! k)) = agent_model (agents ! k)"
      by (simp_all add: callFor_def)
    have "\<not> isl (snd (?es ! k))"
      using ans kl by (simp add: nth_mem)
    then have "snd (?es ! k) = Inr (replyOf (?es ! k))"
      by (cases \<open>snd (?es ! k)\<close>) (simp_all add: replyOf_def)
    with p show ?thesis unfolding prevAt[OF k] by simp
  qed
  have turns: "debate_transcript res ! ((i - 1) * A + k)
             = \<lparr> turn_round = Num (int i), agentId = agent_id (agents ! k),
                 agentName = agent_name (agents ! k), turn_provider = agent_provider (agents ! k),
                 turn_model = agent_model (agents ! k),
                 turn_content = replyOf (calls ! ((i - 1) * A + k)) \<rparr>"
    if run: "runDebate callLlm maxTok q agents rounds s = (Inr res, s')" and k: "k < A" for res s' k
  proof -
    from run sim have "fst (runDebate (logged callLlm) maxTok q agents rounds ([], s)) = Inr res"
      by simp
    with tr have fl: "\<forall>es \<in> set chunks. length es = length agents"
      and bt: "butlast (debate_transcript res) = turnsOf agents 1 chunks"
      by simp_all
    have i1l: "i - 1 < length chunks" using il by simp
    have kA: "k < length agents" using k assms(2) by simp
    from turnsOf_nth[OF fl i1l kA, of 1]
    have l: "(i - 1) * A + k < length (turnsOf agents 1 chunks)"
      and v: "turnsOf agents 1 chunks ! ((i - 1) * A + k)
         = mkTurn (1 + int (i - 1)) (agents ! k) (replyOf (?es ! k))"
      unfolding assms(2)[symmetric] by simp_all
    have "debate_transcript res ! ((i - 1) * A + k) = butlast (debate_transcript res) ! ((i - 1) * A + k)"
      using l unfolding bt[symmetric] by (simp add: nth_butlast)
    also have "\<dots> = mkTurn (1 + int (i - 1)) (agents ! k) (replyOf (?es ! k))"
      unfolding bt v ..
    also have "1 + int (i - 1) = int i" using i1 by simp
    finally show ?thesis
      unfolding prevAt[OF k] by (simp add: mkTurn_def)
  qed
  have dst: "filter (\<lambda>k. agent_id (agents ! k) \<noteq> agent_id (agents ! j)) [0..<A]
            = filter (\<lambda>k. k \<noteq> j) [0..<A]"
    if d: "distinct (map agent_id agents)"
  proof (rule filter_cong[OF refl])
    fix k assume "k \<in> set [0..<A]"
    then have k: "k < length (map agent_id agents)" using assms(2) by simp
    have j': "j < length (map agent_id agents)" using jA by simp
    from nth_eq_iff_index_eq[OF d k j'] k j'
    show "(agent_id (agents ! k) \<noteq> agent_id (agents ! j)) = (k \<noteq> j)" by simp
  qed
  have add_c: "int i + 1 = 1 + int i" by simp
  show ?thesis
    unfolding add_c
    using sim i1 jA c1 c2 c3 prevCalls turns dst
    unfolding bp assms(2)[symmetric]
    by blast
qed


theorem round_prompts_peer_context_witness:
  "2 < length sampleLog \<and> length twoAgents \<le> 2 \<and> 2 < roundCount (Num 2) * length twoAgents
   \<and> map replyOf sampleLog = [''reply 0'', ''reply 1'', ''reply 2'', ''reply 3'', ''reply 4'']
   \<and> promptOf (sampleLog ! 2)
       = Some \<lparr> role = User,
                content = join nl
                  [''Question: Why?'',
                   ''Round 2 of 2'',
                   '''',
                   ''Peer updates from the previous round:'',
                   ''- Skeptic: reply 1'',
                   '''',
                   ''Task:'',
                   ''- Critique at least one peer claim.'',
                   ''- Defend your current answer or concede to a stronger answer.'',
                   ''- Ask up to 2 pointed questions only if needed.'',
                   ''- End with an updated confidence score from 0-100.'',
                   '''',
                   ''Format:'',
                   ''Current answer:'',
                   ''Why this is stronger (or concession):'',
                   ''Questions for peers:'',
                   ''Confidence:''] \<rparr>"
proof -
  have rs: "map replyOf sampleLog = [''reply 0'', ''reply 1'', ''reply 2'', ''reply 3'', ''reply 4'']"
    by code_simp
  from arg_cong[OF rs, of length] have l: "2 < length sampleLog" by simp
  have a: "2 = length twoAgents"
    by (simp add: twoAgents_def buildSameModelRoleAgents_def)
  have rc: "2 < roundCount (Num 2) * 2"
    by (simp add: roundCount_def)
  have e: "[''- Skeptic: reply 1'']
      = map (\<lambda>k. peerEntry (twoAgents ! k) (replyOf (sampleLog ! ((1 - 1) * 2 + k))))
          (filter (\<lambda>k. agent_id (twoAgents ! k) \<noteq> agent_id (twoAgents ! 0)) [0..<2])"
    by code_simp
  have sh: "showInt (int 1 + 1) = ''2''" "showNumber (Num 2) = ''2''"
    by code_simp+
  from round_prompts_peer_context
         [where calls = sampleLog and callLlm = counterLlm and maxTok = "Num 450"
            and q = "''Why?''" and agents = twoAgents and rounds = "Num 2" and s = 0
            and A = 2 and n = 2 and i = 1 and j = 0 and entries = "[''- Skeptic: reply 1'']",
          OF sampleLog_def a l _ rc _ _ e]
  have p: "promptOf (sampleLog ! 2)
       = Some \<lparr> role = User,
                content = join nl
                  [''Question: Why?'',
                   ''Round 2 of 2'',
                   '''',
                   ''Peer updates from the previous round:'',
                   ''- Skeptic: reply 1'',
                   '''',
                   ''Task:'',
                   ''- Critique at least one peer claim.'',
                   ''- Defend your current answer or concede to a stronger answer.'',
                   ''- Ask up to 2 pointed questions only if needed.'',
                   ''- End with an updated confidence score from 0-100.'',
                   '''',
                   ''Format:'',
                   ''Current answer:'',
                   ''Why this is stronger (or concession):'',
                   ''Questions for peers:'',
                   ''Confidence:''] \<rparr>"
    unfolding sh by simp
  show ?thesis
    using l a rc rs p by simp
qed







text \<open>
  C7. In every state the queue reaches, whatever the order of calls to \<open>callGemini\<close>,
  of promise reactions and of task completions: at most one task is in flight; a task that
  has been started was enqueued, and every task enqueued before it has been started and has
  settled; and once no promise reaction is left to run (the microtask queue is drained), an
  enqueued task whose predecessors have all settled, fulfilled or rejected alike, has been
  started. So tasks run one at a time in the order of their enqueueing, and a rejected task
  holds up no later one.
\<close>

theorem gemini_queue_serializes:
  assumes "exec acts initialQueue = Some st"
  shows "(\<forall>k k'. inFlight st k \<and> inFlight st k' \<longrightarrow> k = k')
     \<and> (\<forall>k \<in> set (started st). k < ntasks st \<and> (\<forall>j<k. j \<in> set (started st) \<and> settled st j))
     \<and> (quiescent st \<longrightarrow> (\<forall>k < ntasks st. (\<forall>j<k. settled st j) \<longrightarrow> k \<in> set (started st)))"
proof -
  have inv: "chainInv st"
    using chainInv_initial assms by (rule chainInv_exec)
  have a: "\<forall>k k'. inFlight st k \<and> inFlight st k' \<longrightarrow> k = k'"
    using one_in_flight [OF inv] by blast
  have b: "\<forall>k \<in> set (started st). k < ntasks st \<and> (\<forall>j<k. j \<in> set (started st) \<and> settled st j)"
    using started_after_settled [OF inv] chainInvD(5) [OF inv] by blast
  have c: "quiescent st \<longrightarrow> (\<forall>k < ntasks st. (\<forall>j<k. settled st j) \<longrightarrow> k \<in> set (started st))"
    using quiescent_started [OF inv] by blast
  from a b c show ?thesis by blast
qed

theorem gemini_queue_serializes_witness:
  "(\<exists>st. exec failThenNext initialQueue = Some st
       \<and> started st = [0, 1] \<and> status st (Result 0) = Rejected \<and> inFlight st 1
       \<and> settled st 0 \<and> quiescent st)
   \<and> (case exec [Enqueue, Enqueue, React 0] initialQueue of
         None \<Rightarrow> False
       | Some st \<Rightarrow> inFlight st 0 \<and> step (React 1) st = None \<and> quiescent st)"
proof -
  have ev: "case exec failThenNext initialQueue of
         None \<Rightarrow> False
       | Some st \<Rightarrow> started st = [0, 1] \<and> status st (Result 0) = Rejected \<and> inFlight st 1
                      \<and> quiescent st"
    by code_simp
  then obtain st where st: "exec failThenNext initialQueue = Some st"
    and f: "started st = [0, 1]" "status st (Result 0) = Rejected" "inFlight st 1" "quiescent st"
    by (auto split: option.splits)
  from gemini_queue_serializes [OF st] f(1) have "settled st 0"
    by simp
  with st f have c1: "\<exists>st. exec failThenNext initialQueue = Some st
       \<and> started st = [0, 1] \<and> status st (Result 0) = Rejected \<and> inFlight st 1
       \<and> settled st 0 \<and> quiescent st"
    by blast
  have c2: "case exec [Enqueue, Enqueue, React 0] initialQueue of
         None \<Rightarrow> False
       | Some st \<Rightarrow> inFlight st 0 \<and> step (React 1) st = None \<and> quiescent st"
    by code_simp
  from c1 c2 show ?thesis by (rule conjI)
qed

text \<open>
  C8. The shuffle of four distinct results, with its three random draws given as the
  indices \<open>(j3, j2, j1)\<close> (one per Fisher-Yates step, \<open>j3\<close> in 0..3, \<open>j2\<close> in 0..2,
  \<open>j1\<close> in 0..1): there are 24 draw vectors, and every ordering \<open>p\<close> of the results is
  produced by exactly one of them. So with uniform independent draws every one of the 4! = 24
  orderings has the same probability 1/24. The labels are then assigned to the shuffled
  positions in sequence: "Response A" to "Response D".
\<close>

theorem shuffle_uniform:
  assumes "length results = 4" and "distinct results" and "mset p = mset results"
  shows "card drawSpace = 24
     \<and> card {t \<in> drawSpace. map unblind (blindAndShuffle (draws3 t) results) = p} = 1
     \<and> (\<forall>t \<in> drawSpace. map blindId (blindAndShuffle (draws3 t) results)
           = [''Response A'', ''Response B'', ''Response C'', ''Response D''])"
proof (intro conjI ballI)
  show "card drawSpace = 24" by (rule card_drawSpace)
next
  let ?F = "\<lambda>t. shuffleLoop (draws3 t) 3 results"
  let ?perms = "{ys. mset ys = mset results}"
  have n: "3 < length results" using assms(1) by simp
  have inj: "inj_on ?F drawSpace"
  proof (rule inj_onI)
    fix t t' assume t: "t \<in> drawSpace" "t' \<in> drawSpace" and e: "?F t = ?F t'"
    have "\<forall>i \<in> {1..<Suc 3}. draws3 t i = draws3 t' i"
      using assms(2) n draws3_in_range[OF t(1)] draws3_in_range[OF t(2)] e
      by (rule shuffleLoop_inj)
    with t show "t = t'" by (rule draws3_inj)
  qed
  have sub: "?F ` drawSpace \<subseteq> ?perms"
    using n by (auto simp: mset_shuffleLoop draws3_in_range)
  have cp: "card ?perms = 24"
    using assms(2,1) by (rule card_orderings)
  then have fin: "finite ?perms"
    by (simp add: card_ge_0_finite)
  have "card (?F ` drawSpace) = 24"
    using inj by (simp add: card_image card_drawSpace)
  with sub fin cp have img: "?F ` drawSpace = ?perms"
    by (intro card_subset_eq) simp_all
  have "p \<in> ?F ` drawSpace" using img assms(3) by simp
  then obtain t where t: "t \<in> drawSpace" "?F t = p" by (elim imageE) simp
  have "{t \<in> drawSpace. ?F t = p} = {t}"
    using t inj by (auto dest: inj_onD)
  then have "card {t \<in> drawSpace. ?F t = p} = 1" by simp
  then show "card {t \<in> drawSpace. map unblind (blindAndShuffle (draws3 t) results) = p} = 1"
    using assms(1) by (simp add: unblind_blindAndShuffle)
next
  fix t
  have len: "length (blindAndShuffle (draws3 t) results) = 4"
    using assms(1) by (simp add: length_blindAndShuffle)
  have "map blindId (blindAndShuffle (draws3 t) results) = map blindLabel [0..<4]"
    using len assms(1) by (intro nth_equalityI) (simp_all add: blindId_blindAndShuffle)
  also have "\<dots> = [''Response A'', ''Response B'', ''Response C'', ''Response D'']"
    by code_simp
  finally show "map blindId (blindAndShuffle (draws3 t) results)
      = [''Response A'', ''Response B'', ''Response C'', ''Response D'']" .
qed

theorem shuffle_uniform_witness:
  "length fourResults = 4 \<and> distinct fourResults
   \<and> card drawSpace = 24
   \<and> card {t \<in> drawSpace. map unblind (blindAndShuffle (draws3 t) fourResults) = rev fourResults} = 1"
proof -
  have l: "length fourResults = 4"
    by (simp add: fourResults_def fiveResults_def)
  have d: "distinct fourResults"
    by (simp add: fourResults_def fiveResults_def sampleResult_def)
  have m: "mset (rev fourResults) = mset fourResults" by simp
  show ?thesis
    using l d shuffle_uniform [OF l d m] by simp
qed

text \<open>
  C9. The clamp \<open>Math.max(1, input.rounds)\<close> misses the round count \<open>NaN\<close>, which the
  module computes from a \<open>DEBATE_ROUNDS\<close> that does not start with an integer: the
  maximum is \<open>NaN\<close> again, the loop over the rounds ends before its first round whatever
  the roster and the gateway, and a debate of two agents returns a transcript of one
  turn, the synthesis, whose round is \<open>NaN\<close>. No round was run, where the claim has at
  least one.
\<close>

theorem runDebateCondition_NaN_rounds:
  "mathMax (Num 1) NaN = NaN
   \<and> roundsLoop callLlm maxTok q agents (mathMax (Num 1) NaN) 1 h [] s = (Inr (h, []), s)
   \<and> runDebateCondition counterLlm (Num 450) Multi_same_model_roles ''label'' ''Why?'' twoAgents NaN 0
       = (Inr \<lparr> conditionId = Multi_same_model_roles, conditionLabel = ''label'',
                answer = ''reply 0'',
                transcript =
                  [\<lparr> turn_round = NaN, agentId = ''lead_moderator'',
                     agentName = ''Lead Moderator (Final Synthesis)'', turn_provider = Gemini,
                     turn_model = ''gemini-2.5-flash'', turn_content = ''reply 0'' \<rparr>] \<rparr>,
          1)"
proof (intro conjI)
  show "mathMax (Num 1) NaN = NaN" by simp
  show "roundsLoop callLlm maxTok q agents (mathMax (Num 1) NaN) 1 h [] s = (Inr (h, []), s)"
    by (simp add: roundsLoop.simps)
  show "runDebateCondition counterLlm (Num 450) Multi_same_model_roles ''label'' ''Why?'' twoAgents NaN 0
       = (Inr \<lparr> conditionId = Multi_same_model_roles, conditionLabel = ''label'',
                answer = ''reply 0'',
                transcript =
                  [\<lparr> turn_round = NaN, agentId = ''lead_moderator'',
                     agentName = ''Lead Moderator (Final Synthesis)'', turn_provider = Gemini,
                     turn_model = ''gemini-2.5-flash'', turn_content = ''reply 0'' \<rparr>] \<rparr>,
          1)"
    by code_simp
qed

text \<open>
  C10. For an input list of any length, \<open>blindAndShuffle\<close> returns a rearrangement of
  exactly the input results: the output has the input's length, and stripping the blind id
  from the output gives the input as a multiset, so every input result appears exactly once
  with its answer, condition id, condition label and transcript unchanged. The only new
  field is \<open>blindId\<close>: position \<open>i\<close> carries the \<open>i\<close>-th fixed label, and from the
  fifth position on the generated label "Response N" with N = i + 1.
\<close>

theorem blindAndShuffle_rearranges:
  assumes "drawsInRange rnd (length results)"
  shows "length (blindAndShuffle rnd results) = length results
       \<and> mset (map unblind (blindAndShuffle rnd results)) = mset results
       \<and> (\<forall>i < length results.
            blindAndShuffle rnd results ! i
              = blindOne i (unblind (blindAndShuffle rnd results ! i))
          \<and> blindId (blindAndShuffle rnd results ! i)
              = (if i < 4 then labels ! i else ''Response '' @ showNat (i + 1)))"
proof (intro conjI allI impI)
  show "length (blindAndShuffle rnd results) = length results"
    by (rule length_blindAndShuffle)
  show "mset (map unblind (blindAndShuffle rnd results)) = mset results"
    using assms by (rule mset_unblind_blindAndShuffle)
next
  fix i assume i: "i < length results"
  show "blindAndShuffle rnd results ! i = blindOne i (unblind (blindAndShuffle rnd results ! i))"
    using i
    by (simp add: blindAndShuffle_def Let_def length_shuffleLoop nth_enumerate_eq
        unblind_blindOne)
  show "blindId (blindAndShuffle rnd results ! i)
      = (if i < 4 then labels ! i else ''Response '' @ showNat (i + 1))"
    using i by (simp add: blindId_blindAndShuffle blindLabel_def labels_def)
qed

theorem blindAndShuffle_rearranges_witness:
  "drawsInRange (\<lambda>i. 0) (length fiveResults)
   \<and> map blindId (blindAndShuffle (\<lambda>i. 0) fiveResults)
       = [''Response A'', ''Response B'', ''Response C'', ''Response D'', ''Response 5'']
   \<and> map blind_answer (blindAndShuffle (\<lambda>i. 0) fiveResults) = [''b'', ''c'', ''d'', ''e'', ''a'']
   \<and> mset (map unblind (blindAndShuffle (\<lambda>i. 0) fiveResults)) = mset fiveResults"
proof -
  have h: "drawsInRange (\<lambda>i. 0) (length fiveResults)"
    by (simp add: drawsInRange_def)
  have ids: "map blindId (blindAndShuffle (\<lambda>i. 0) fiveResults)
       = [''Response A'', ''Response B'', ''Response C'', ''Response D'', ''Response 5'']"
    by code_simp
  have ans: "map blind_answer (blindAndShuffle (\<lambda>i. 0) fiveResults)
       = [''b'', ''c'', ''d'', ''e'', ''a'']"
    by code_simp
  show ?thesis
    using h ids ans blindAndShuffle_rearranges [OF h] by simp
qed

end
